theory Spec2Isabelle
  imports Main
begin

section \<open>JSDev: the tagged-comment preprocessor of jsdev.c\<close>

text \<open>
  The C program keeps its scan state in the globals \<open>cr\<close>, \<open>line_nr\<close> and \<open>preview\<close>
  and talks to \<open>stdin\<close> and \<open>stdout\<close>. The model passes one record through every
  function: the unread bytes of \<open>stdin\<close>, the bytes written to \<open>stdout\<close> so far, and the
  three globals. Characters travel as \<open>int\<close>, as in C: \<open>fgetc\<close> yields a byte value
  \<open>0..255\<close> or \<open>EOF\<close>. \<open>line_nr\<close> is an unbounded integer (the C \<open>int\<close> would need
  more than \<open>2^31\<close> line breaks to overflow). Writes to \<open>stdout\<close> are taken to succeed, so
  the \<open>write error.\<close> exits of \<open>emit\<close> and \<open>emits\<close> do not occur.
\<close>

record state =
  stdin :: string
  stdout :: string
  preview :: int
  cr :: bool
  line_nr :: int

text \<open>
  \<open>error\<close> prints the line number (or \<open>bad method line\<close> when \<open>line_nr\<close> is 0) with the
  message and exits with status 1. A failure keeps the line number printed, the message
  and what had been written to \<open>stdout\<close> by then. \<open>Overrun\<close> stands for the one
  place where the C program leaves defined behaviour: \<open>main\<close> stores the first character
  of a tag beyond the \<open>MAX_NR_TAGS\<close> rows of \<open>tags\<close>. An argument whose first character is
  no identifier character stores nothing before \<open>error\<close> is called.
\<close>

datatype failure = Failure (at_line: int) (message: string) (written: string) | Overrun

abbreviation EOF :: int where "EOF \<equiv> - 1"

abbreviation MAX_NR_TAGS :: nat where "MAX_NR_TAGS \<equiv> 100"

abbreviation MAX_TAG_LENGTH :: nat where "MAX_TAG_LENGTH \<equiv> 80"

text \<open>A C character constant is an \<open>int\<close>.\<close>

abbreviation ascii :: "char \<Rightarrow> int" where "ascii ch \<equiv> of_char ch"

definition error :: "string \<Rightarrow> state \<Rightarrow> failure + 'a" where
  "error msg s = Inl (Failure (line_nr s) msg (stdout s))"

definition is_alphanum :: "int \<Rightarrow> bool" where
  "is_alphanum c \<longleftrightarrow>
     (c \<ge> ascii CHR ''a'' \<and> c \<le> ascii CHR ''z'') \<or>
     (c \<ge> ascii CHR ''0'' \<and> c \<le> ascii CHR ''9'') \<or>
     (c \<ge> ascii CHR ''A'' \<and> c \<le> ascii CHR ''Z'') \<or>
     c = ascii CHR ''_'' \<or> c = ascii CHR ''$'' \<or> c = ascii CHR ''.''"

definition emit :: "int \<Rightarrow> state \<Rightarrow> state" where
  "emit c s = (if c > 0 then s\<lparr>stdout := stdout s @ [char_of c]\<rparr> else s)"

definition emits :: "string \<Rightarrow> state \<Rightarrow> state" where
  "emits str s = s\<lparr>stdout := stdout s @ str\<rparr>"

definition fgetc :: "state \<Rightarrow> int \<times> state" where
  "fgetc s = (case stdin s of [] \<Rightarrow> (EOF, s) | b # bs \<Rightarrow> (ascii b, s\<lparr>stdin := bs\<rparr>))"

definition peek :: "state \<Rightarrow> int \<times> state" where
  "peek s =
     (if preview s = 0
      then (let (c, s) = fgetc s in (c, s\<lparr>preview := c\<rparr>))
      else (preview s, s))"

definition get :: "bool \<Rightarrow> state \<Rightarrow> int \<times> state" where
  "get echo s =
     (let (c, s) = (if preview s \<noteq> 0 then (preview s, s\<lparr>preview := 0\<rparr>) else fgetc s)
      in if c \<le> 0 then (EOF, s)
         else
           let s = (if c = ascii CHR 0x0D
                    then s\<lparr>cr := True, line_nr := line_nr s + 1\<rparr>
                    else (if c = ascii CHR 0x0A \<and> \<not> cr s
                          then s\<lparr>line_nr := line_nr s + 1\<rparr> else s)\<lparr>cr := False\<rparr>)
           in (c, if echo then emit c s else s))"

definition unget :: "int \<Rightarrow> state \<Rightarrow> state" where
  "unget c s = s\<lparr>preview := c\<rparr>"

text \<open>What is left to read: the bytes of \<open>stdin\<close> and a pushed-back byte.\<close>

definition remaining :: "state \<Rightarrow> nat" where
  "remaining s = length (stdin s) + (if preview s > 0 then 1 else 0)"

lemma ascii_nonneg: "0 \<le> ascii b"
  using of_char_mod_256 [of b, where ?'a = int] pos_mod_sign [of 256 "ascii b"] by simp

lemma ascii_less_256: "ascii b < 256"
  using of_char_mod_256 [of b, where ?'a = int] pos_mod_bound [of 256 "ascii b"] by simp

lemma get_remaining: "get echo s = (c, s') \<Longrightarrow> remaining s' \<le> remaining s"
  by (auto simp: get_def fgetc_def emit_def remaining_def Let_def
           split: if_splits list.splits)

lemma get_remaining_less: "get echo s = (c, s') \<Longrightarrow> c \<noteq> EOF \<Longrightarrow> remaining s' < remaining s"
  by (auto simp: get_def fgetc_def emit_def remaining_def Let_def
           split: if_splits list.splits)

lemma peek_remaining: "peek s = (c, s') \<Longrightarrow> remaining s' \<le> remaining s"
  using ascii_nonneg
  by (auto simp: peek_def fgetc_def remaining_def Let_def
           split: if_splits list.splits)

lemma peek_get_remaining_less:
  "peek s = (c, s') \<Longrightarrow> 0 < c \<Longrightarrow> get echo s' = (d, s'') \<Longrightarrow> remaining s'' < remaining s"
  by (auto simp: peek_def get_def fgetc_def emit_def remaining_def Let_def
           split: if_splits list.splits)

lemma emit_fields [simp]:
  "stdin (emit c s) = stdin s" "preview (emit c s) = preview s"
  "cr (emit c s) = cr s" "line_nr (emit c s) = line_nr s"
  "remaining (emit c s) = remaining s"
  by (simp_all add: emit_def remaining_def)

lemma emits_fields [simp]:
  "stdin (emits str s) = stdin s" "preview (emits str s) = preview s"
  "cr (emits str s) = cr s" "line_nr (emits str s) = line_nr s"
  "remaining (emits str s) = remaining s" "stdout (emits str s) = stdout s @ str"
  by (simp_all add: emits_def remaining_def)

lemma get_rem:
  "get echo s = (c, s') \<Longrightarrow>
     preview s' = 0 \<and> (if c = EOF then remaining s' \<le> remaining s \<and> preview s \<le> 0
      else remaining s' < remaining s)"
  using ascii_nonneg
  by (auto simp: get_def fgetc_def emit_def remaining_def Let_def
           split: if_splits list.splits)

lemma peek_rem:
  "peek s = (c, s') \<Longrightarrow> remaining s' \<le> remaining s \<and> preview s' = c"
  using ascii_nonneg
  by (auto simp: peek_def fgetc_def remaining_def Let_def
           split: if_splits list.splits)

subsection \<open>String literals\<close>

text \<open>The test \<open>in_comment && c == '*' && peek() == '/'\<close>; \<open>peek\<close> runs only when the
  first two conjuncts hold.\<close>

definition star_slash :: "bool \<Rightarrow> int \<Rightarrow> state \<Rightarrow> bool \<times> state" where
  "star_slash in_comment c s =
     (if in_comment \<and> c = ascii CHR ''*''
      then (let (p, s) = peek s in (p = ascii CHR ''/'', s))
      else (False, s))"

text \<open>The test \<open>peek() == '/' || peek() == '*'\<close>, with both calls of \<open>peek\<close>.\<close>

definition peek_comment :: "state \<Rightarrow> bool \<times> state" where
  "peek_comment s =
     (let (p, s) = peek s in
      if p = ascii CHR ''/'' then (True, s)
      else (let (p, s) = peek s in (p = ascii CHR ''*'', s)))"

lemma star_slash_remaining: "star_slash ic c s = (b, s') \<Longrightarrow> remaining s' \<le> remaining s"
  by (auto simp: star_slash_def split: if_splits prod.splits dest: peek_remaining)

lemma peek_comment_remaining: "peek_comment s = (b, s') \<Longrightarrow> remaining s' \<le> remaining s"
  by (fastforce simp: peek_comment_def split: if_splits prod.splits dest: peek_remaining)

text \<open>The loop of \<open>string\<close>; \<open>was\<close> is the line number on entry.\<close>

function string_loop :: "int \<Rightarrow> bool \<Rightarrow> int \<Rightarrow> state \<Rightarrow> failure + state" where
  "string_loop quote in_comment was s =
     (let (c, s) = get True s in
      if c = quote then Inr s
      else
        let (c, s) = (if c = ascii CHR 0x5C then get True s else (c, s));
            (close, s) = star_slash in_comment c s
        in if close then error ''unexpected close comment in string.'' s
           else if c = EOF then error ''unterminated string literal.'' (s\<lparr>line_nr := was\<rparr>)
           else string_loop quote in_comment was s)"
  by pat_completeness auto
termination
proof (relation "measure (\<lambda>(quote, in_comment, was, s). remaining s)", goal_cases)
  case 1
  show ?case by simp
next
  case (2 quote in_comment was s x c s1 y c2 s2 z close s3)
  then show ?case
    by (auto split: if_splits
        dest!: star_slash_remaining [OF sym] get_remaining_less [OF sym])
qed

declare string_loop.simps [simp del]

definition string :: "int \<Rightarrow> bool \<Rightarrow> state \<Rightarrow> failure + state" where
  "string quote in_comment s = string_loop quote in_comment (line_nr s) s"


lemma string_loop_remaining:
  "string_loop quote in_comment was s = Inr s' \<Longrightarrow> quote \<noteq> EOF \<Longrightarrow> remaining s' < remaining s"
proof (induction s arbitrary: s' rule: measure_induct_rule [of remaining])
  case (less s)
  note IH = less.IH [OF _ _ \<open>quote \<noteq> EOF\<close>]
  from less.prems show ?case
    apply (subst (asm) string_loop.simps)
    apply (clarsimp split: prod.splits if_splits simp: error_def)
    subgoal by (auto dest: get_remaining_less)
    subgoal for s1 c2 s2 cl s3
      using get_remaining_less [of True s 92 s1] get_remaining_less [of True s1 c2 s2]
        star_slash_remaining [of in_comment c2 s2 False s3] IH [of s3 s']
      by simp
    subgoal for s1 c cl s3
      using get_remaining_less [of True s c s1]
        star_slash_remaining [of in_comment c s1 False s3] IH [of s3 s']
      by simp
    done
qed


subsection \<open>Regular expression literals\<close>

definition pre_regexp :: "int \<Rightarrow> bool" where
  "pre_regexp left \<longleftrightarrow>
     left = ascii CHR ''('' \<or> left = ascii CHR '','' \<or> left = ascii CHR ''='' \<or>
     left = ascii CHR '':'' \<or> left = ascii CHR ''['' \<or> left = ascii CHR ''!'' \<or>
     left = ascii CHR ''&'' \<or> left = ascii CHR ''|'' \<or> left = ascii CHR ''?'' \<or>
     left = ascii CHR ''{'' \<or> left = ascii CHR ''}'' \<or> left = ascii CHR '';''"

text \<open>The inner loop of \<open>regexp\<close>, over a character set; it ends at \<open>]\<close>.\<close>

function regexp_set_loop :: "bool \<Rightarrow> state \<Rightarrow> failure + state" where
  "regexp_set_loop in_comment s =
     (let (c, s) = get True s in
      if c = ascii CHR '']'' then Inr s
      else
        let (c, s) = (if c = ascii CHR 0x5C then get True s else (c, s));
            (close, s) = star_slash in_comment c s
        in if close then error ''unexpected close comment in regexp.'' s
           else if c = EOF then error ''unterminated set in Regular Expression literal.'' s
           else regexp_set_loop in_comment s)"
  by pat_completeness auto
termination
proof (relation "measure (\<lambda>(in_comment, s). remaining s)", goal_cases)
  case 1
  show ?case by simp
next
  case (2 in_comment s x c s1 y c2 s2 z close s3)
  then show ?case
    by (auto split: if_splits
        dest!: star_slash_remaining [OF sym] get_remaining_less [OF sym])
qed

declare regexp_set_loop.simps [simp del]

lemma regexp_set_loop_remaining:
  "regexp_set_loop in_comment s = Inr s' \<Longrightarrow> remaining s' < remaining s"
proof (induction s arbitrary: s' rule: measure_induct_rule [of remaining])
  case (less s)
  note IH = less.IH
  from less.prems show ?case
    apply (subst (asm) regexp_set_loop.simps)
    apply (clarsimp split: prod.splits if_splits simp: error_def)
    subgoal by (auto dest: get_remaining_less)
    subgoal for s1 c2 s2 cl s3
      using get_remaining_less [of True s 92 s1] get_remaining_less [of True s1 c2 s2]
        star_slash_remaining [of in_comment c2 s2 False s3] IH [of s3 s']
      by simp
    subgoal for s1 c cl s3
      using get_remaining_less [of True s c s1]
        star_slash_remaining [of in_comment c s1 False s3] IH [of s3 s']
      by simp
    done
qed

text \<open>
  The outer loop of \<open>regexp\<close>. After the inner loop \<open>c\<close> is \<open>]\<close>, so neither of the two
  tests that close the loop body fires and the loop goes round.
\<close>

function regexp_loop :: "bool \<Rightarrow> int \<Rightarrow> state \<Rightarrow> failure + state" where
  "regexp_loop in_comment was s =
     (let (c, s) = get True s in
      if c = ascii CHR ''['' then
        (case regexp_set_loop in_comment s of
           Inl e \<Rightarrow> Inl e
         | Inr s \<Rightarrow> regexp_loop in_comment was s)
      else if c = ascii CHR ''/'' then
        (if in_comment then
           (let (comment, s) = peek_comment s in
            if comment then error ''unexpected comment.'' s else Inr s)
         else Inr s)
      else
        let (c, s) = (if c = ascii CHR 0x5C then get True s else (c, s));
            (close, s) = star_slash in_comment c s
        in if close then error ''unexpected comment.'' s
           else if c = EOF then error ''unterminated regexp literal.'' (s\<lparr>line_nr := was\<rparr>)
           else regexp_loop in_comment was s)"
  by pat_completeness auto
termination
proof (relation "measure (\<lambda>(in_comment, was, s). remaining s)", goal_cases)
  case 1
  show ?case by simp
next
  case (2 in_comment was s x c s1 s2)
  then show ?case
    by (auto dest!: regexp_set_loop_remaining get_remaining_less [OF sym])
next
  case (3 in_comment was s x c s1 y c2 s2 z close s3)
  then show ?case
    by (auto split: if_splits
        dest!: star_slash_remaining [OF sym] get_remaining_less [OF sym])
qed

declare regexp_loop.simps [simp del]

definition regexp :: "bool \<Rightarrow> state \<Rightarrow> failure + state" where
  "regexp in_comment s = regexp_loop in_comment (line_nr s) s"

lemma regexp_loop_remaining:
  "regexp_loop in_comment was s = Inr s' \<Longrightarrow> remaining s' < remaining s"
proof (induction s arbitrary: s' rule: measure_induct_rule [of remaining])
  case (less s)
  note IH = less.IH
  from less.prems show ?case
    apply (subst (asm) regexp_loop.simps)
    apply (clarsimp split: prod.splits if_splits sum.splits simp: error_def)
    subgoal for s1 s2
      using get_remaining_less [of True s 91 s1] regexp_set_loop_remaining [of in_comment s1 s2]
        IH [of s2 s']
      by simp
    subgoal for s1
      using get_remaining_less [of True s 47 s1] peek_comment_remaining [of s1 False s']
      by simp
    subgoal by (auto dest: get_remaining_less)
    subgoal for s1 c2 s2 cl s3
      using get_remaining_less [of True s 92 s1] get_remaining_less [of True s1 c2 s2]
        star_slash_remaining [of in_comment c2 s2 False s3] IH [of s3 s']
      by simp
    subgoal for s1 c cl s3
      using get_remaining_less [of True s c s1]
        star_slash_remaining [of in_comment c s1 False s3] IH [of s3 s']
      by simp
    done
qed


subsection \<open>The condition and the stuff of a tagged comment\<close>

definition opens :: "int \<Rightarrow> bool" where
  "opens c \<longleftrightarrow> c = ascii CHR ''('' \<or> c = ascii CHR ''{'' \<or> c = ascii CHR ''[''"

definition closes :: "int \<Rightarrow> bool" where
  "closes c \<longleftrightarrow> c = ascii CHR '')'' \<or> c = ascii CHR ''}'' \<or> c = ascii CHR '']''"

definition quotes :: "int \<Rightarrow> bool" where
  "quotes c \<longleftrightarrow> c = ascii CHR 0x27 \<or> c = ascii CHR 0x22 \<or> c = ascii CHR 0x60"

lemma not_EOF [simp]: "\<not> opens EOF" "\<not> closes EOF" "\<not> quotes EOF"
  by (simp_all add: opens_def closes_def quotes_def)

text \<open>The statement \<open>if (c > ' ') left = c\<close> that ends a round of each scanning loop.\<close>

definition new_left :: "int \<Rightarrow> int \<Rightarrow> int" where
  "new_left c left = (if c > ascii CHR '' '' then c else left)"

text \<open>The loop of \<open>condition\<close>, entered with \<open>left = '{'\<close> and \<open>paren = 0\<close>.\<close>

function condition_loop :: "int \<Rightarrow> int \<Rightarrow> state \<Rightarrow> failure + state" where
  "condition_loop left paren s =
     (let (c, s) = get True s in
      if opens c then condition_loop (new_left c left) (paren + 1) s
      else if closes c then
        (if paren - 1 = 0 then Inr s else condition_loop (new_left c left) (paren - 1) s)
      else if c = EOF then error ''Unterminated condition.'' s
      else if quotes c then
        (case string c True s of
           Inl e \<Rightarrow> Inl e
         | Inr s \<Rightarrow> condition_loop (new_left c left) paren s)
      else if c = ascii CHR ''/'' then
        (let (comment, s) = peek_comment s in
         if comment then error ''unexpected comment.'' s
         else case (if pre_regexp left then regexp True s else Inr s) of
                Inl e \<Rightarrow> Inl e
              | Inr s \<Rightarrow> condition_loop (new_left c left) paren s)
      else
        (let (close, s) = star_slash True c s in
         if close then error ''unclosed condition.'' s
         else condition_loop (new_left c left) paren s))"
  by pat_completeness auto
termination
proof (relation "measure (\<lambda>(left, paren, s). remaining s)", goal_cases)
  case 1
  show ?case by simp
next
  case (2 left paren s x c s1)
  then show ?case
    by (auto simp: opens_def dest!: get_remaining_less [OF sym])
next
  case (3 left paren s x c s1)
  then show ?case
    by (auto simp: closes_def dest!: get_remaining_less [OF sym])
next
  case (4 left paren s x c s1 s2)
  then show ?case
    using string_loop_remaining [of c True "line_nr s1" s1 s2] get_remaining [of True s c s1]
    by (auto simp: string_def quotes_def)
next
  case (5 left paren s x c s1 y comment s2 s3)
  then show ?case
    using get_remaining_less [of True s c s1] peek_comment_remaining [of s1 comment s2]
      regexp_loop_remaining [of True "line_nr s2" s2 s3]
    by (auto simp: regexp_def split: if_splits)
next
  case (6 left paren s x c s1 y close s2)
  then show ?case
    using get_remaining_less [of True s c s1] star_slash_remaining [of True c s1 close s2]
    by auto
qed

declare condition_loop.simps [simp del]

definition condition :: "state \<Rightarrow> failure + state" where
  "condition s = condition_loop (ascii CHR ''{'') 0 s"

text \<open>The first loop of \<open>stuff\<close>: \<open>while (peek() == ' ') get(FALSE)\<close>.\<close>

function skip_spaces :: "state \<Rightarrow> state" where
  "skip_spaces s =
     (let (p, s) = peek s in
      if p = ascii CHR '' '' then (let (c, s) = get False s in skip_spaces s) else s)"
  by pat_completeness auto
termination
proof (relation "measure remaining", goal_cases)
  case 1
  show ?case by simp
next
  case (2 s x p s1 y c s2)
  then show ?case
    using peek_get_remaining_less [of s p s1 False c s2] by simp
qed

declare skip_spaces.simps [simp del]

text \<open>
  The main loop of \<open>stuff\<close>. Its body opens with the loop \<open>while (peek() == '*')\<close>, whose
  rounds either end the comment or emit the star and test again; one recursive function
  stands at the head of both loops.
\<close>

function stuff_loop :: "int \<Rightarrow> int \<Rightarrow> state \<Rightarrow> failure + state" where
  "stuff_loop left paren s =
     (let (p, s) = peek s in
      if p = ascii CHR ''*'' then
        (let (c, s) = get False s;
             (p, s) = peek s
         in if p = ascii CHR ''/'' then
              (let (c, s) = get False s in
               if paren > 0 then error ''Unbalanced stuff'' s else Inr s)
            else stuff_loop left paren (emit (ascii CHR ''*'') s))
      else
        (let (c, s) = get True s in
         if c = EOF then error ''Unterminated stuff.'' s
         else if quotes c then
           (case string c True s of
              Inl e \<Rightarrow> Inl e
            | Inr s \<Rightarrow> stuff_loop (new_left c left) paren s)
         else if opens c then stuff_loop (new_left c left) (paren + 1) s
         else if closes c then
           (if paren - 1 < 0 then error ''Unbalanced stuff'' s
            else stuff_loop (new_left c left) (paren - 1) s)
         else if c = ascii CHR ''/'' then
           (let (comment, s) = peek_comment s in
            if comment then error ''unexpected comment.'' s
            else case (if pre_regexp left then regexp True s else Inr s) of
                   Inl e \<Rightarrow> Inl e
                 | Inr s \<Rightarrow> stuff_loop (new_left c left) paren s)
         else stuff_loop (new_left c left) paren s))"
  by pat_completeness auto
termination
proof (relation "measure (\<lambda>(left, paren, s). remaining s)", goal_cases)
  case 1
  show ?case by simp
next
  case (2 left paren s x p s1 y c s2 z p2 s3)
  then show ?case
    using peek_get_remaining_less [of s p s1 False c s2] peek_remaining [of s2 p2 s3]
    by (simp add: emit_def remaining_def)
next
  case (3 left paren s x p s1 y c s2 s3)
  then show ?case
    using peek_remaining [of s p s1] get_remaining [of True s1 c s2]
      string_loop_remaining [of c True "line_nr s2" s2 s3]
    by (auto simp: string_def quotes_def)
next
  case (4 left paren s x p s1 y c s2)
  then show ?case
    using peek_remaining [of s p s1] get_remaining_less [of True s1 c s2] by simp
next
  case (5 left paren s x p s1 y c s2)
  then show ?case
    using peek_remaining [of s p s1] get_remaining_less [of True s1 c s2] by simp
next
  case (6 left paren s x p s1 y c s2 z comment s3 s4)
  then show ?case
    using peek_remaining [of s p s1] get_remaining_less [of True s1 c s2]
      peek_comment_remaining [of s2 comment s3] regexp_loop_remaining [of True "line_nr s3" s3 s4]
    by (auto simp: regexp_def split: if_splits)
next
  case (7 left paren s x p s1 y c s2)
  then show ?case
    using peek_remaining [of s p s1] get_remaining_less [of True s1 c s2] by simp
qed

declare stuff_loop.simps [simp del]

definition stuff :: "state \<Rightarrow> failure + state" where
  "stuff s = stuff_loop (ascii CHR ''{'') 0 (skip_spaces s)"


lemma string_rem:
  "string quote in_comment s = Inr s' \<Longrightarrow> quotes quote \<longrightarrow> remaining s' < remaining s"
  by (auto simp: string_def quotes_def dest: string_loop_remaining)

lemma regexp_rem: "regexp in_comment s = Inr s' \<Longrightarrow> remaining s' < remaining s"
  by (auto simp: regexp_def dest: regexp_loop_remaining)

lemma condition_loop_remaining:
  "condition_loop left paren s = Inr s' \<Longrightarrow> remaining s' \<le> remaining s"
proof (induction s arbitrary: s' left paren rule: measure_induct_rule [of remaining])
  case (less s)
  have IH: "remaining y < remaining s \<longrightarrow> remaining s' \<le> remaining y"
    if "condition_loop left paren y = Inr s'" for left paren y s'
    using less.IH that by blast
  from less.prems show ?case
    apply (subst (asm) condition_loop.simps)
    apply (auto split: prod.splits if_splits sum.splits simp: error_def
        dest!: IH get_rem string_rem regexp_rem peek_comment_remaining star_slash_remaining)
    done
qed

lemma skip_spaces_remaining: "remaining (skip_spaces s) \<le> remaining s"
proof (induction s rule: measure_induct_rule [of remaining])
  case (less s)
  have IH: "remaining y < remaining s \<longrightarrow> remaining (skip_spaces y) \<le> remaining y" for y
    using less.IH by blast
  show ?case
    apply (subst skip_spaces.simps)
    apply (auto split: prod.splits if_splits dest!: peek_rem get_rem)
    subgoal for s1 c s2 using IH [of s2] by simp
    done
qed

lemma stuff_loop_remaining:
  "stuff_loop left paren s = Inr s' \<Longrightarrow> remaining s' < remaining s"
proof (induction s arbitrary: s' left paren rule: measure_induct_rule [of remaining])
  case (less s)
  have IH: "remaining y < remaining s \<longrightarrow> remaining s' < remaining y"
    if "stuff_loop left paren y = Inr s'" for left paren y s'
    using less.IH that by blast
  from less.prems show ?case
    apply (subst (asm) stuff_loop.simps)
    apply (auto split: prod.splits if_splits sum.splits simp: error_def
        dest!: IH get_rem peek_rem string_rem regexp_rem peek_comment_remaining)
    done
qed


subsection \<open>The tag registry and the expansion\<close>

text \<open>
  The parallel arrays \<open>tags\<close> and \<open>methods\<close>, with \<open>nr_tags\<close> rows in use, are one
  list of pairs; a tag without a method has the empty string as its method.
\<close>

type_synonym registry = "(string \<times> string) list"

definition expand :: "registry \<Rightarrow> nat \<Rightarrow> state \<Rightarrow> failure + state" where
  "expand reg tag_nr s =
     (let (c, s) = peek s in
      case (if c = ascii CHR ''(''
            then (case condition (emits ''if '' s) of
                    Inl e \<Rightarrow> Inl e
                  | Inr s \<Rightarrow> Inr (emit (ascii CHR '' '') s))
            else Inr s) of
        Inl e \<Rightarrow> Inl e
      | Inr s \<Rightarrow>
          (let s = emit (ascii CHR ''{'') s in
           if snd (reg ! tag_nr) \<noteq> [] then
             (case stuff (emit (ascii CHR ''('') (emits (snd (reg ! tag_nr)) s)) of
                Inl e \<Rightarrow> Inl e
              | Inr s \<Rightarrow> Inr (emits '');}'' s))
           else
             (case stuff s of
                Inl e \<Rightarrow> Inl e
              | Inr s \<Rightarrow> Inr (emit (ascii CHR ''}'') s))))"

function match_loop :: "registry \<Rightarrow> string \<Rightarrow> nat \<Rightarrow> int" where
  "match_loop reg tag tag_nr =
     (if tag_nr < length reg
      then (if tag = fst (reg ! tag_nr) then int tag_nr else match_loop reg tag (tag_nr + 1))
      else EOF)"
  by pat_completeness auto
termination
  by (relation "measure (\<lambda>(reg, tag, tag_nr). length reg - tag_nr)") auto

declare match_loop.simps [simp del]

definition match :: "registry \<Rightarrow> string \<Rightarrow> int" where
  "match reg tag = match_loop reg tag 0"

lemma stuff_remaining: "stuff s = Inr s' \<Longrightarrow> remaining s' < remaining s"
  using skip_spaces_remaining [of s]
  by (auto simp: stuff_def dest!: stuff_loop_remaining)

lemma expand_remaining: "expand reg tag_nr s = Inr s' \<Longrightarrow> remaining s' < remaining s"
  by (auto simp: expand_def condition_def Let_def
      split: prod.splits if_splits sum.splits
      dest!: peek_rem condition_loop_remaining stuff_remaining)

subsection \<open>The driver\<close>

text \<open>The loop that echoes a \<open>//\<close> comment to the end of its line.\<close>

function line_comment_loop :: "state \<Rightarrow> state" where
  "line_comment_loop s =
     (let (c, s) = get True s in
      if c = ascii CHR 0x0A \<or> c = ascii CHR 0x0D \<or> c = EOF then s
      else line_comment_loop s)"
  by pat_completeness auto
termination
  by (relation "measure remaining") (auto dest!: get_rem [OF sym])

declare line_comment_loop.simps [simp del]

text \<open>
  The loop that reads the candidate tag: \<open>i\<close> characters are in \<open>tag\<close>, and \<open>c\<close> is the last
  character read. It returns \<open>i\<close>, the tag, \<open>c\<close> and the state.
\<close>

function tag_loop :: "nat \<Rightarrow> string \<Rightarrow> int \<Rightarrow> state \<Rightarrow> nat \<times> string \<times> int \<times> state" where
  "tag_loop i tag c s =
     (if i < MAX_TAG_LENGTH then
        (let (c, s) = get False s in
         if \<not> is_alphanum c then (i, tag, c, s)
         else tag_loop (i + 1) (tag @ [char_of c]) c s)
      else (i, tag, c, s))"
  by pat_completeness auto
termination
  by (relation "measure (\<lambda>(i, tag, c, s). MAX_TAG_LENGTH - i)") auto

declare tag_loop.simps [simp del]

text \<open>
  The loop that echoes a comment whose tag did not match. On entry \<open>c\<close> is the character
  that was pushed back; afterwards it is the last character read.
\<close>

function comment_loop :: "int \<Rightarrow> state \<Rightarrow> failure + state" where
  "comment_loop c s =
     (if c = EOF then error ''unterminated comment.'' s
      else if c = ascii CHR ''/'' then
        (let (c, s) = get True s in
         if c = ascii CHR ''*'' \<or> c = ascii CHR ''/'' then error ''nested comment.'' s
         else comment_loop c s)
      else if c = ascii CHR ''*'' then
        (let (c, s) = get True s in
         if c = ascii CHR ''/'' then Inr s else comment_loop c s)
      else
        (let (c, s) = get True s in comment_loop c s))"
  by pat_completeness auto
termination
  by (relation "measure (\<lambda>(c, s). remaining s + (if c = EOF then 0 else 1))")
    (auto dest!: get_rem split: if_splits prod.splits)

declare comment_loop.simps [simp del]


lemma line_comment_loop_remaining: "remaining (line_comment_loop s) \<le> remaining s"
proof (induction s rule: measure_induct_rule [of remaining])
  case (less s)
  have IH: "remaining y < remaining s \<longrightarrow> remaining (line_comment_loop y) \<le> remaining y" for y
    using less.IH by blast
  show ?case
    apply (subst line_comment_loop.simps)
    apply (auto split: prod.splits if_splits dest!: get_rem)
    subgoal for c s1 using IH [of s1] by simp
    done
qed

lemma tag_loop_remaining:
  "tag_loop i tag c s = (i', tag', c', s') \<Longrightarrow>
     remaining (unget c' s') \<le> (if i < MAX_TAG_LENGTH then remaining s else length (stdin s) + 1)"
proof (induction i tag c s rule: tag_loop.induct)
  case (1 i tag c s)
  show ?case
  proof (cases "i < MAX_TAG_LENGTH")
    case False
    with "1.prems" show ?thesis
      by (simp add: tag_loop.simps [of i] unget_def remaining_def)
  next
    case True
    obtain c1 s1 where g: "get False s = (c1, s1)" by force
    show ?thesis
    proof (cases "is_alphanum c1")
      case False
      with "1.prems" True g have "c' = c1" "s' = s1"
        by (simp_all add: tag_loop.simps [of i])
      with get_rem [OF g] True show ?thesis
        by (auto simp: unget_def remaining_def split: if_splits)
    next
      case alnum: True
      with "1.prems" True g
      have "tag_loop (i + 1) (tag @ [char_of c1]) c1 s1 = (i', tag', c', s')"
        by (simp add: tag_loop.simps [of i])
      from "1.IH" [OF True refl g [symmetric] _ this] alnum
      have "remaining (unget c' s')
              \<le> (if i + 1 < MAX_TAG_LENGTH then remaining s1 else length (stdin s1) + 1)"
        by simp
      moreover have "c1 \<noteq> EOF" using alnum by (auto simp: is_alphanum_def)
      ultimately show ?thesis
        using get_rem [OF g] True by (auto simp: remaining_def split: if_splits)
    qed
  qed
qed

lemma comment_loop_remaining:
  "comment_loop c s = Inr s' \<Longrightarrow> remaining s' \<le> remaining s"
proof (induction "remaining s + (if c = EOF then 0 else 1)" arbitrary: c s rule: less_induct)
  case less
  have IH: "remaining y + (if d = EOF then 0 else 1) < remaining s + (if c = EOF then 0 else 1)
              \<longrightarrow> remaining s' \<le> remaining y"
    if "comment_loop d y = Inr s'" for d y
    using less.hyps that by blast
  from less.prems show ?case
    apply (subst (asm) comment_loop.simps)
    apply (auto split: prod.splits if_splits simp: error_def dest!: IH get_rem)
    done
qed


text \<open>
  The loop of \<open>process\<close>: \<open>c\<close> is the character in hand, \<open>left\<close> the character taken to
  stand to the left of the next slash.
\<close>

function process_loop :: "registry \<Rightarrow> int \<Rightarrow> int \<Rightarrow> state \<Rightarrow> failure + state" where
  "process_loop reg c left s =
     (if c = EOF then Inr s
      else if quotes c then
        (case string c False (emit c s) of
           Inl e \<Rightarrow> Inl e
         | Inr s \<Rightarrow> process_loop reg 0 left s)
      else if c = ascii CHR ''/'' then
        (let (p, s) = peek s in
         if p = ascii CHR ''/'' then
           (let s = line_comment_loop (emit (ascii CHR ''/'') s);
                (c, s) = get False s
            in process_loop reg c left s)
         else
           (let (p, s) = peek s in
            if p = ascii CHR ''*'' then
              (let (c, s) = get False s;
                   (i, tag, c, s) = tag_loop 0 [] c s;
                   s = unget c s;
                   i = (if i = 0 then - 1 else match reg tag)
               in if i \<ge> 0 then
                    (case expand reg (nat i) s of
                       Inl e \<Rightarrow> Inl e
                     | Inr s \<Rightarrow> (let (c, s) = get False s in process_loop reg c left s))
                  else
                    (case comment_loop c (emits tag (emits ''/*'' s)) of
                       Inl e \<Rightarrow> Inl e
                     | Inr s \<Rightarrow> (let (c, s) = get False s in process_loop reg c left s)))
            else
              (let s = emit (ascii CHR ''/'') s in
               case (if pre_regexp left then regexp False s else Inr s) of
                 Inl e \<Rightarrow> Inl e
               | Inr s \<Rightarrow>
                   (let (c, s) = get False s in process_loop reg c (ascii CHR ''/'') s))))
      else
        (let s = emit c s;
             left = new_left c left;
             (c, s) = get False s
         in process_loop reg c left s))"
  by pat_completeness auto
termination
proof (relation "measure (\<lambda>(reg, c, left, s). remaining s + (if c = EOF then 0 else 1))",
    goal_cases)
  case 1
  show ?case by simp
next
  case (2 reg c left s s1)
  then show ?case
    using string_rem [of c False "emit c s" s1] by simp
next
  case (3 reg c left s x p s1 s2 y c' s3)
  then show ?case
    using peek_rem [of s p s1] line_comment_loop_remaining [of "emit (ascii CHR ''/'') s1"]
      get_rem [of False s2 c' s3]
    by (auto split: if_splits)
next
  case (4 reg c left s x p s1 y p2 s2 z c1 s3 t i r tag r2 c2 s4 s5 k s6 u c' s7)
  then show ?case
    using peek_rem [of s p s1] peek_rem [of s1 p2 s2] get_rem [of False s2 c1 s3]
      tag_loop_remaining [of 0 "[]" c1 s3 i tag c2 s4] expand_remaining [of reg "nat k" s5 s6]
      get_rem [of False s6 c' s7]
    by (auto split: if_splits)
next
  case (5 reg c left s x p s1 y p2 s2 z c1 s3 t i r tag r2 c2 s4 s5 k s6 u c' s7)
  then show ?case
    using peek_rem [of s p s1] peek_rem [of s1 p2 s2] get_rem [of False s2 c1 s3]
      tag_loop_remaining [of 0 "[]" c1 s3 i tag c2 s4]
      comment_loop_remaining [of c2 "emits tag (emits ''/*'' s5)" s6]
      get_rem [of False s6 c' s7]
    by (auto split: if_splits)
next
  case (6 reg c left s x p s1 y p2 s2 s3 s4 u c' s5)
  then show ?case
    using peek_rem [of s p s1] peek_rem [of s1 p2 s2] regexp_rem [of False s3 s4]
      get_rem [of False s4 c' s5]
    by (auto split: if_splits)
next
  case (7 reg c left s s1 l u c' s2)
  then show ?case
    using get_rem [of False s1 c' s2] by (auto split: if_splits)
qed

declare process_loop.simps [simp del]

definition process :: "registry \<Rightarrow> state \<Rightarrow> failure + state" where
  "process reg s =
     (let s = s\<lparr>line_nr := 1\<rparr>;
          (c, s) = get False s
      in process_loop reg c 0 s)"

subsection \<open>The command line\<close>

text \<open>
  \<open>argv[i][j]\<close>: a C string ends with a zero byte.
\<close>

definition char_at :: "string \<Rightarrow> nat \<Rightarrow> int" where
  "char_at arg j = (if j < length arg then ascii (arg ! j) else 0)"

text \<open>
  The two loops of \<open>main\<close> that copy a tag and a method out of an argument are the same
  loop, over \<open>j\<close> from the start of the argument and over \<open>k\<close> from \<open>base\<close>, the place after
  the colon. The result is the final index, the last character looked at, and the name
  copied.
\<close>

function name_loop :: "string \<Rightarrow> nat \<Rightarrow> nat \<Rightarrow> int \<Rightarrow> string \<Rightarrow> nat \<times> int \<times> string" where
  "name_loop arg base j c name =
     (if j < MAX_TAG_LENGTH then
        (let c = char_at arg (base + j) in
         if \<not> is_alphanum c then (j, c, name)
         else name_loop arg base (j + 1) c (name @ [char_of c]))
      else (j, c, name))"
  by pat_completeness auto
termination
  by (relation "measure (\<lambda>(arg, base, j, c, name). MAX_TAG_LENGTH - j)") auto

declare name_loop.simps [simp del]

text \<open>
  The loop of \<open>main\<close> over the arguments after the program name. \<open>line_nr\<close> is 0 here, so
  \<open>error\<close> reports a bad method line. The character \<open>c\<close> is carried from one argument to
  the next, as the C variable is.
\<close>

fun main_loop :: "string list \<Rightarrow> bool \<Rightarrow> int \<Rightarrow> registry \<Rightarrow> state \<Rightarrow> failure + registry \<times> state"
  where
  "main_loop [] comment c reg s = Inr (reg, s)"
| "main_loop (arg # args) comment c reg s =
     (if comment then
        main_loop args False c reg (emit (ascii CHR 0x0A) (emits arg (emits ''// '' s)))
      else if arg = ''-comment'' then main_loop args True c reg s
      else
        (let (j, c, tag) = name_loop arg 0 0 c [] in
         if j = 0 then error arg s
         else if length reg \<ge> MAX_NR_TAGS then Inl Overrun
         else if c = 0 then main_loop args False c (reg @ [(tag, [])]) s
         else if c = ascii CHR '':'' then
           (let (k, c, method) = name_loop arg (j + 1) 0 c [] in
            if k = 0 \<or> c \<noteq> 0 then error arg s
            else main_loop args False c (reg @ [(tag, method)]) s)
         else error arg s))"

text \<open>
  \<open>main\<close>, from the arguments after the program name and the contents of \<open>stdin\<close> to what
  has been written to \<open>stdout\<close> when the program returns 0, or to the failure.
\<close>

definition main :: "string list \<Rightarrow> string \<Rightarrow> failure + string" where
  "main args input =
     (case main_loop args False EOF []
             \<lparr>stdin = input, stdout = [], preview = 0, cr = False, line_nr = 0\<rparr> of
        Inl e \<Rightarrow> Inl e
      | Inr (reg, s) \<Rightarrow>
          (case process reg s of
             Inl e \<Rightarrow> Inl e
           | Inr s \<Rightarrow> Inr (stdout s)))"

section \<open>Properties\<close>

text \<open>
  C4. The claim: the tag loop of the driver stores up to \<open>MAX_TAG_LENGTH\<close> identifier
  characters and pushes back the first character that is not one, so that no character
  is scanned twice, also for runs of 80 or more identifier characters. The code does
  otherwise on a run of 80: the loop leaves by its bound with \<open>c\<close> still holding the 80th
  identifier character, which is in the tag already, and \<open>unget\<close> pushes that one back.
  Here the loop is run on eighty letters \<open>a\<close> followed by the end of the comment: it
  returns all eighty as the tag and \<open>a\<close> as the character to push back, and the whole
  program writes eighty-one letters for the eighty it read.
\<close>

theorem tag_loop_pushes_back_stored_character:
  "tag_loop 0 [] (ascii CHR ''*'')
       \<lparr>stdin = replicate 80 CHR ''a'' @ ''*/'', stdout = [], preview = 0, cr = False,
        line_nr = 1\<rparr>
     = (80, replicate 80 CHR ''a'', ascii CHR ''a'',
        \<lparr>stdin = ''*/'', stdout = [], preview = 0, cr = False, line_nr = 1\<rparr>)
   \<and> main [] (''/*'' @ replicate 80 CHR ''a'' @ ''*/'')
     = Inr (''/*'' @ replicate 81 CHR ''a'' @ ''*/'')"
  by code_simp

text \<open>
  C5. The claim: every argument of 1 to 80 identifier characters without a colon is
  accepted as a tag. The code rejects the argument of exactly 80 characters: the copying
  loop stops at its bound, \<open>c\<close> is the 80th character and neither zero nor a colon, and
  \<open>main\<close> reports the argument as a bad method line. An argument of 79 characters is
  accepted.
\<close>

theorem main_rejects_tag_of_80_characters:
  "main [replicate 80 CHR ''a''] [] = Inl (Failure 0 (replicate 80 CHR ''a'') [])
   \<and> main [replicate 79 CHR ''a''] [] = Inr []"
  by code_simp

subsection \<open>The string scanner at the end of the stream\<close>

lemma star_slash_rem:
  "star_slash ic c s = (b, s') \<Longrightarrow>
     remaining s' \<le> remaining s \<and> (b \<longrightarrow> ic \<and> c = ascii CHR ''*'')"
  by (auto simp: star_slash_def split: if_splits prod.splits dest: peek_remaining)

lemma string_loop_failure:
  "string_loop quote in_comment was s = Inl f \<Longrightarrow>
     (\<exists>w. f = Failure was ''unterminated string literal.'' w) \<or>
     (in_comment \<and> (\<exists>n w. f = Failure n ''unexpected close comment in string.'' w))"
proof (induction s rule: measure_induct_rule [of remaining])
  case (less s)
  have IH: "remaining y < remaining s \<longrightarrow>
     (\<exists>w. f = Failure was ''unterminated string literal.'' w) \<or>
     (in_comment \<and> (\<exists>n w. f = Failure n ''unexpected close comment in string.'' w))"
    if "string_loop quote in_comment was y = Inl f" for y
    using less.IH that by blast
  from less.prems show ?case
    apply (subst (asm) string_loop.simps)
    apply (auto split: prod.splits if_splits simp: error_def
        dest!: IH get_rem star_slash_rem)
    done
qed

text \<open>No byte that \<open>get\<close> can still deliver is \<open>q\<close>.\<close>

definition absent :: "int \<Rightarrow> state \<Rightarrow> bool" where
  "absent q s \<longleftrightarrow> preview s \<noteq> q \<and> (\<forall>b \<in> set (stdin s). ascii b \<noteq> q)"

lemma get_absent:
  "get echo s = (c, s') \<Longrightarrow> absent q s \<Longrightarrow> 0 < q \<Longrightarrow> c \<noteq> q \<and> absent q s'"
  by (auto simp: get_def fgetc_def emit_def absent_def Let_def
           split: if_splits list.splits)

lemma peek_absent:
  "peek s = (c, s') \<Longrightarrow> absent q s \<Longrightarrow> 0 < q \<Longrightarrow> absent q s'"
  by (auto simp: peek_def fgetc_def absent_def Let_def
           split: if_splits list.splits)

lemma string_loop_no_quote:
  "absent quote s \<Longrightarrow> 0 < quote \<Longrightarrow> \<exists>f. string_loop quote in_comment was s = Inl f"
proof (induction s rule: measure_induct_rule [of remaining])
  case (less s)
  have IH: "remaining y < remaining s \<Longrightarrow> absent quote y
      \<Longrightarrow> \<exists>f. string_loop quote in_comment was y = Inl f" for y
    using less.IH less.prems(2) by blast
  obtain c s1 where g1: "get True s = (c, s1)" by force
  obtain c2 s2 where g2: "(if c = ascii CHR 0x5C then get True s1 else (c, s1)) = (c2, s2)"
    by force
  obtain cl s3 where g3: "star_slash in_comment c2 s2 = (cl, s3)" by force
  from get_absent [OF g1 less.prems] have c: "c \<noteq> quote" and a1: "absent quote s1" by simp_all
  from g2 a1 less.prems(2) have a2: "absent quote s2"
    by (auto split: if_splits dest: get_absent)
  from g3 a2 less.prems(2) have a3: "absent quote s3"
    by (auto simp: star_slash_def split: if_splits prod.splits dest: peek_absent)
  show ?case
  proof (cases "cl \<or> c2 = EOF")
    case True
    with g1 g2 g3 c show ?thesis
      by (subst string_loop.simps) (auto simp: error_def)
  next
    case False
    have "remaining s3 < remaining s"
      using g1 g2 g3 False
      by (auto split: if_splits dest!: get_rem star_slash_remaining)
    from IH [OF this a3] g1 g2 g3 c False show ?thesis
      by (subst string_loop.simps) auto
  qed
qed

text \<open>
  C8. The claim: when the end of the stream comes before the closing quote, \<open>string\<close>
  fails with the unterminated string error and reports the line on which the literal
  began. \<open>string\<close> does save \<open>line_nr\<close> on entry and puts it back before the error, so the
  number reported is the counter as it stood at the opening quote. But the counter is
  wrong by then whenever a line break ended the candidate tag of a block comment
  earlier in the input: \<open>get\<close> counts the break when the tag loop reads it, \<open>unget\<close> pushes
  it back, and \<open>get\<close> counts it again when it is read the second time. With the tag
  \<open>debug\<close>, the input \<open>/*debug\<close>, a line feed, a quote and \<open>abc\<close> holds an unterminated
  literal on line 2 and is reported on line 3; so is the input \<open>/*\<close>, a line feed, \<open>*/\<close>, a
  quote and \<open>abc\<close> with no tag at all. Without a comment before it, a literal that opens
  on line 2 of an input of four lines is reported on line 2.
\<close>

theorem unterminated_string_line_after_pushed_back_break:
  "main [''debug''] (''/*debug'' @ [CHR 0x0A, CHR 0x27] @ ''abc'')
     = Inl (Failure 3 ''unterminated string literal.'' (''{'' @ [CHR 0x0A, CHR 0x27] @ ''abc''))
   \<and> main [] (''/*'' @ [CHR 0x0A] @ ''*/'' @ [CHR 0x27] @ ''abc'')
     = Inl (Failure 3 ''unterminated string literal.''
              (''/*'' @ [CHR 0x0A] @ ''*/'' @ [CHR 0x27] @ ''abc''))
   \<and> main [] ([CHR 0x0A, CHR 0x27] @ ''abc'' @ [CHR 0x0A, CHR 0x0A])
     = Inl (Failure 2 ''unterminated string literal.''
              ([CHR 0x0A, CHR 0x27] @ ''abc'' @ [CHR 0x0A, CHR 0x0A]))"
  by code_simp

subsection \<open>The unread input\<close>

text \<open>
  A pushed-back byte and the rest of \<open>stdin\<close> make up what the cursor will still deliver.
  A state is sound when \<open>stdin\<close> holds no zero byte and \<open>preview\<close> is empty, a byte, or
  \<open>EOF\<close> at the end of the stream; \<open>get\<close>, \<open>peek\<close> and the \<open>unget\<close> of the driver keep it so.
\<close>

definition pending :: "state \<Rightarrow> string" where
  "pending s = (if preview s > 0 then [char_of (preview s)] else [])"

definition unread :: "state \<Rightarrow> string" where
  "unread s = pending s @ stdin s"

definition sound :: "state \<Rightarrow> bool" where
  "sound s \<longleftrightarrow>
     (\<forall>b \<in> set (stdin s). ascii b \<noteq> 0) \<and>
     (preview s = 0 \<or> (preview s = EOF \<and> stdin s = []) \<or> (0 < preview s \<and> preview s < 256))"

lemma ascii_sign:
  "ascii b \<le> 0 \<longleftrightarrow> ascii b = 0" "0 < ascii b \<longleftrightarrow> ascii b \<noteq> 0"
  "ascii b \<noteq> EOF" "EOF \<noteq> ascii b"
  using ascii_nonneg [of b] by auto

lemma ascii_char_of: "0 < c \<Longrightarrow> c < 256 \<Longrightarrow> ascii (char_of c) = c"
  by simp

lemma get_unread:
  "get echo s = (c, s') \<Longrightarrow> sound s \<longrightarrow>
     sound s' \<and> preview s' = 0 \<and> cr s' = (if c = EOF then cr s else c = 13) \<and>
     (case unread s of
        [] \<Rightarrow> c = EOF \<and> unread s' = [] \<and> stdout s' = stdout s
      | b # bs \<Rightarrow> c = ascii b \<and> 0 < c \<and> unread s' = bs \<and>
          stdout s' = stdout s @ (if echo then [b] else []))"
  by (auto simp: get_def fgetc_def emit_def sound_def unread_def pending_def Let_def
        ascii_sign ascii_less_256 split: if_splits list.splits)

lemma peek_unread:
  "peek s = (c, s') \<Longrightarrow> sound s \<longrightarrow>
     sound s' \<and> unread s' = unread s \<and> stdout s' = stdout s \<and>
     line_nr s' = line_nr s \<and> cr s' = cr s \<and> 
     c = (case unread s of [] \<Rightarrow> EOF | b # bs \<Rightarrow> ascii b)"
  by (auto simp: peek_def fgetc_def sound_def unread_def pending_def Let_def
        ascii_sign ascii_less_256 split: if_splits list.splits)


text \<open>
  From \<open>s\<close> to \<open>s'\<close> the cursor has delivered a text \<open>d\<close> and every byte of it has been
  echoed: \<open>d\<close> has moved from the unread input to the end of \<open>stdout\<close>.
\<close>

definition echoed :: "state \<Rightarrow> state \<Rightarrow> bool" where
  "echoed s s' \<longleftrightarrow>
     sound s' \<and> (\<exists>d. stdout s' = stdout s @ d \<and> unread s = d @ unread s')"

lemma emit_sound [simp]:
  "pending (emit c s) = pending s" "unread (emit c s) = unread s" "sound (emit c s) = sound s"
  "pending (emits str s) = pending s" "unread (emits str s) = unread s"
  "sound (emits str s) = sound s"
  by (simp_all add: pending_def unread_def sound_def)

lemma char_of_literals [simp]:
  "char_of (47::int) = CHR ''/''" "char_of (42::int) = CHR ''*''"
  "char_of (32::int) = CHR '' ''" "char_of (123::int) = CHR ''{''"
  "char_of (125::int) = CHR ''}''" "char_of (40::int) = CHR ''(''"
  "char_of (10::int) = CHR 0x0A"
  using char_of_char [of "CHR ''/''", where ?'a = int]
    char_of_char [of "CHR ''*''", where ?'a = int]
    char_of_char [of "CHR '' ''", where ?'a = int]
    char_of_char [of "CHR ''{''", where ?'a = int]
    char_of_char [of "CHR ''}''", where ?'a = int]
    char_of_char [of "CHR ''(''", where ?'a = int]
    char_of_char [of "CHR 0x0A", where ?'a = int]
  by simp_all

lemma ascii_literals:
  "ascii a = 47 \<longleftrightarrow> a = CHR ''/''" "ascii a = 42 \<longleftrightarrow> a = CHR ''*''"
  "ascii a = 32 \<longleftrightarrow> a = CHR '' ''" "ascii a = 40 \<longleftrightarrow> a = CHR ''(''"
  using of_char_eq_iff [of a "CHR ''/''", where ?'a = int]
    of_char_eq_iff [of a "CHR ''*''", where ?'a = int]
    of_char_eq_iff [of a "CHR '' ''", where ?'a = int]
    of_char_eq_iff [of a "CHR ''(''", where ?'a = int]
  by simp_all

lemma stdout_emit: "0 < c \<Longrightarrow> stdout (emit c s) = stdout s @ [char_of c]"
  by (simp add: emit_def)

lemma echoed_refl: "sound s \<Longrightarrow> echoed s s"
  by (simp add: echoed_def)

lemma echoed_trans: "echoed s s1 \<Longrightarrow> echoed s1 s2 \<Longrightarrow> echoed s s2"
  by (auto simp: echoed_def)

lemma get_echoed:
  "get True s = (c, s') \<Longrightarrow>
     (if c = EOF then remaining s' \<le> remaining s else remaining s' < remaining s) \<and>
     (sound s \<longrightarrow>
       echoed s s' \<and> preview s' = 0 \<and> (c = EOF \<longrightarrow> unread s' = []) \<and>
       (c = EOF \<or> (0 < c \<and> c < 256)))"
  using get_rem [of True s c s'] get_unread [of True s c s']
  by (auto simp: echoed_def ascii_less_256 split: list.splits)

lemma peek_echoed:
  "peek s = (c, s') \<Longrightarrow> remaining s' \<le> remaining s \<and> (sound s \<longrightarrow> echoed s s')"
  using peek_remaining [of s c s'] peek_unread [of s c s']
  by (auto simp: echoed_def)

lemma star_slash_echoed:
  "star_slash ic c s = (b, s') \<Longrightarrow> remaining s' \<le> remaining s \<and> (sound s \<longrightarrow> echoed s s')"
  by (auto simp: star_slash_def echoed_refl split: if_splits prod.splits dest!: peek_echoed)

lemma peek_comment_echoed:
  "peek_comment s = (b, s') \<Longrightarrow> remaining s' \<le> remaining s \<and> (sound s \<longrightarrow> echoed s s')"
  by (auto simp: peek_comment_def echoed_def split: if_splits prod.splits dest!: peek_echoed)

lemma string_loop_echoed:
  "string_loop quote in_comment was s = Inr s' \<Longrightarrow> sound s \<Longrightarrow> echoed s s'"
proof (induction s rule: measure_induct_rule [of remaining])
  case (less s)
  have IH: "remaining y < remaining s \<longrightarrow> sound y \<longrightarrow> echoed y s'"
    if "string_loop quote in_comment was y = Inr s'" for y
    using less.IH that by blast
  from less.prems show ?case
    apply (subst (asm) string_loop.simps)
    apply (auto split: prod.splits if_splits simp: error_def echoed_def
        dest!: IH get_echoed star_slash_echoed)
    done
qed


lemma regexp_set_loop_echoed:
  "regexp_set_loop in_comment s = Inr s' \<Longrightarrow> sound s \<Longrightarrow> echoed s s'"
proof (induction s rule: measure_induct_rule [of remaining])
  case (less s)
  have IH: "remaining y < remaining s \<longrightarrow> sound y \<longrightarrow> echoed y s'"
    if "regexp_set_loop in_comment y = Inr s'" for y
    using less.IH that by blast
  from less.prems show ?case
    apply (subst (asm) regexp_set_loop.simps)
    apply (auto split: prod.splits if_splits simp: error_def echoed_def
        dest!: IH get_echoed star_slash_echoed)
    done
qed

lemma regexp_set_loop_rem:
  "regexp_set_loop in_comment s = Inr s' \<Longrightarrow>
     remaining s' < remaining s \<and> (sound s \<longrightarrow> echoed s s')"
  using regexp_set_loop_remaining regexp_set_loop_echoed by blast

lemma regexp_loop_echoed:
  "regexp_loop in_comment was s = Inr s' \<Longrightarrow> sound s \<Longrightarrow> echoed s s'"
proof (induction s rule: measure_induct_rule [of remaining])
  case (less s)
  have IH: "remaining y < remaining s \<longrightarrow> sound y \<longrightarrow> echoed y s'"
    if "regexp_loop in_comment was y = Inr s'" for y
    using less.IH that by blast
  from less.prems show ?case
    apply (subst (asm) regexp_loop.simps)
    apply (auto split: prod.splits if_splits sum.splits simp: error_def echoed_def
        dest!: IH get_echoed star_slash_echoed regexp_set_loop_rem peek_comment_echoed)
    done
qed

lemma line_comment_loop_echoed: "sound s \<Longrightarrow> echoed s (line_comment_loop s)"
proof (induction s rule: measure_induct_rule [of remaining])
  case (less s)
  have IH: "remaining y < remaining s \<longrightarrow> sound y \<longrightarrow> echoed y (line_comment_loop y)" for y
    using less.IH by blast
  obtain c s1 where g: "get True s = (c, s1)" by force
  show ?case
    using g less.prems get_echoed [OF g] IH [of s1]
    by (subst line_comment_loop.simps) (auto simp: echoed_def)
qed

lemma comment_loop_echoed:
  "comment_loop c s = Inr s' \<Longrightarrow> sound s \<Longrightarrow> echoed s s'"
proof (induction "remaining s + (if c = EOF then 0 else 1)" arbitrary: c s rule: less_induct)
  case less
  have IH: "remaining y + (if d = EOF then 0 else 1) < remaining s + (if c = EOF then 0 else 1)
              \<longrightarrow> sound y \<longrightarrow> echoed y s'"
    if "comment_loop d y = Inr s'" for d y
    using less.hyps that by blast
  from less.prems show ?case
    apply (subst (asm) comment_loop.simps)
    apply (auto split: prod.splits if_splits simp: error_def echoed_def dest!: IH get_echoed)
    done
qed

subsection \<open>Text without a matching tagged comment passes through\<close>

text \<open>The identifier characters that open a text: what the tag loop would store.\<close>

definition tag_run :: "string \<Rightarrow> string" where
  "tag_run text = takeWhile (\<lambda>b. is_alphanum (ascii b)) text"

text \<open>The character in hand, as text.\<close>

definition in_hand :: "int \<Rightarrow> string" where
  "in_hand c = (if 0 < c then [char_of c] else [])"

lemma stdout_emit_hand: "stdout (emit c s) = stdout s @ in_hand c"
  by (simp add: emit_def in_hand_def)

lemma is_alphanum_range: "is_alphanum c \<Longrightarrow> 0 < c \<and> c < 256"
  by (auto simp: is_alphanum_def)

lemma tag_run_append_drop: "tag_run t @ drop (length (tag_run t)) t = t"
  by (simp add: tag_run_def flip: dropWhile_eq_drop)

lemma get_hand:
  "get False s = (c, s') \<Longrightarrow>
     (if c = EOF then remaining s' \<le> remaining s else remaining s' < remaining s) \<and>
     (sound s \<longrightarrow>
        sound s' \<and> preview s' = 0 \<and> stdout s' = stdout s \<and> unread s = in_hand c @ unread s' \<and>
        (c = EOF \<longrightarrow> unread s' = []) \<and> (c = EOF \<or> (0 < c \<and> c < 256)))"
  using get_rem [of False s c s'] get_unread [of False s c s']
  by (auto simp: in_hand_def ascii_less_256 split: list.splits)

lemma tag_loop_unread:
  "tag_loop i tag c s = (i', tag', c', s') \<Longrightarrow> sound s \<Longrightarrow> length tag = i \<Longrightarrow>
   length (tag_run (unread s)) + i < MAX_TAG_LENGTH \<Longrightarrow>
     tag' = tag @ tag_run (unread s) \<and> i' = length tag' \<and> sound (unget c' s') \<and>
     unread (unget c' s') = drop (length (tag_run (unread s))) (unread s) \<and>
     stdout s' = stdout s \<and> in_hand c' = take 1 (unread (unget c' s')) \<and>
     (c' = EOF \<or> (0 < c' \<and> c' < 256))"
proof (induction i tag c s rule: tag_loop.induct)
  case (1 i tag c s)
  from "1.prems" have i: "i < MAX_TAG_LENGTH" by simp
  obtain c1 s1 where g: "get False s = (c1, s1)" by force
  note u = get_unread [OF g, rule_format, OF \<open>sound s\<close>]
  show ?case
  proof (cases "is_alphanum c1")
    case False
    with "1.prems" i g have res: "i' = i" "tag' = tag" "c' = c1" "s' = s1"
      by (simp_all add: tag_loop.simps [of i])
    show ?thesis
    proof (cases "unread s")
      case Nil
      with u res "1.prems" show ?thesis
        by (auto simp: tag_run_def unget_def sound_def unread_def pending_def in_hand_def)
    next
      case (Cons b bs)
      with u res False "1.prems" show ?thesis
        by (auto simp: tag_run_def unget_def sound_def unread_def pending_def in_hand_def
            ascii_less_256)
    qed
  next
    case True
    then have c1: "0 < c1" "c1 < 256" by (auto dest: is_alphanum_range)
    with u obtain b bs where ub: "unread s = b # bs" "c1 = ascii b" "unread s1 = bs"
      "sound s1" "stdout s1 = stdout s"
      by (cases "unread s") auto
    from "1.prems" i g True
    have rec: "tag_loop (i + 1) (tag @ [char_of c1]) c1 s1 = (i', tag', c', s')"
      by (simp add: tag_loop.simps [of i])
    have tr: "tag_run (unread s) = b # tag_run bs"
      using ub True by (simp add: tag_run_def)
    have "tag' = (tag @ [char_of c1]) @ tag_run (unread s1) \<and> i' = length tag' \<and>
          sound (unget c' s') \<and>
          unread (unget c' s') = drop (length (tag_run (unread s1))) (unread s1) \<and>
          stdout s' = stdout s1 \<and> in_hand c' = take 1 (unread (unget c' s')) \<and>
          (c' = EOF \<or> (0 < c' \<and> c' < 256))"
      using "1.IH" [OF i refl g [symmetric] _ rec \<open>sound s1\<close>] True "1.prems" ub tr
      by simp
    with ub tr show ?thesis by simp
  qed
qed


text \<open>
  No \<open>/*\<close> in the text is followed by 80 or more identifier characters, or by an
  identifier run that the registry holds.
\<close>

fun untagged :: "registry \<Rightarrow> string \<Rightarrow> bool" where
  "untagged reg [] = True"
| "untagged reg (b # text) =
     ((if b = CHR ''/'' \<and> take 1 text = ''*''
       then length (tag_run (drop 1 text)) < MAX_TAG_LENGTH \<and>
            (tag_run (drop 1 text) = [] \<or> match reg (tag_run (drop 1 text)) < 0)
       else True) \<and>
      untagged reg text)"

lemma untagged_suffix: "untagged reg (d @ text) \<Longrightarrow> untagged reg text"
  by (induction d) (simp_all add: untagged.simps)

lemma untagged_head:
  "untagged reg (''/*'' @ post) \<Longrightarrow>
     length (tag_run post) < MAX_TAG_LENGTH \<and>
     (tag_run post \<noteq> [] \<longrightarrow> match reg (tag_run post) < 0)"
  by (auto simp: untagged.simps)

declare untagged.simps [simp del]

lemma string_echoed:
  "string quote in_comment s = Inr s' \<Longrightarrow> sound s \<Longrightarrow> echoed s s'"
  by (simp add: string_def string_loop_echoed)

lemma regexp_echoed:
  "regexp in_comment s = Inr s' \<Longrightarrow> sound s \<Longrightarrow> echoed s s'"
  by (simp add: regexp_def regexp_loop_echoed)

text \<open>The loop of the driver from a character in hand: what it writes is that character
  and the unread input.\<close>

lemma process_loop_passthrough:
  "process_loop reg c left s = Inr s' \<Longrightarrow> sound s \<Longrightarrow> (c = EOF \<longrightarrow> unread s = []) \<Longrightarrow>
   c = EOF \<or> (0 \<le> c \<and> c < 256) \<Longrightarrow> untagged reg (in_hand c @ unread s) \<Longrightarrow>
     stdout s' = stdout s @ in_hand c @ unread s"
proof (induction "remaining s + (if c = EOF then 0 else 1)" arbitrary: c left s rule: less_induct)
  case less
  note IH = less.hyps
  note run = \<open>process_loop reg c left s = Inr s'\<close>
  note run' = run [unfolded process_loop.simps [of reg c left s]]
  note snd = \<open>sound s\<close>
  note unt = \<open>untagged reg (in_hand c @ unread s)\<close>
  text \<open>The step shared by all branches: a character is read into the hand and the loop
    goes round.\<close>
  have round: "stdout s' = stdout y @ unread y"
    if g: "get False y = (d, z)" and p: "process_loop reg d l z = Inr s'" and sy: "sound y"
      and m: "remaining y \<le> remaining s" and u: "untagged reg (unread y)"
      and ne: "c \<noteq> EOF" for y d z l
  proof -
    from get_hand [OF g] sy have h: "sound z" "stdout z = stdout y"
      "unread y = in_hand d @ unread z" "d = EOF \<longrightarrow> unread z = []"
      "d = EOF \<or> (0 < d \<and> d < 256)"
      and r: "if d = EOF then remaining z \<le> remaining y else remaining z < remaining y"
      by simp_all
    from r m ne have "remaining z + (if d = EOF then 0 else 1)
        < remaining s + (if c = EOF then 0 else 1)"
      by (auto split: if_splits)
    from IH [OF this p h(1) h(4)] h u show ?thesis by auto
  qed
  show ?case
  proof (cases "c = EOF")
    case True
    with run' less.prems show ?thesis
      by (simp add: in_hand_def)
  next
    case nE: False
    with less.prems have cr: "0 \<le> c" "c < 256" by auto
    show ?thesis
    proof (cases "quotes c")
      case True
      then have c0: "0 < c" by (auto simp: quotes_def)
      from run' nE True obtain s1 where
        st: "string c False (emit c s) = Inr s1" and p: "process_loop reg 0 left s1 = Inr s'"
        by (auto split: sum.splits)
      from string_echoed [OF st] snd obtain d where e: "sound s1"
        "stdout s1 = stdout s @ [char_of c] @ d" "unread s = d @ unread s1"
        by (auto simp: echoed_def stdout_emit [OF c0])
      from string_rem [OF st] True have "remaining s1 < remaining s" by simp
      then have m: "remaining s1 + (if (0::int) = EOF then 0 else 1)
          < remaining s + (if c = EOF then 0 else 1)"
        using nE by simp
      have "untagged reg (in_hand 0 @ unread s1)"
        using unt e(3) untagged_suffix [of reg "in_hand c @ d" "unread s1"]
        by (simp add: in_hand_def)
      from IH [OF m p e(1) _ _ this] e c0 show ?thesis
        by (simp add: in_hand_def)
    next
      case nQ: False
      show ?thesis
      proof (cases "c = 47")
        case False
        from run' nE nQ False obtain d z where
          g: "get False (emit c s) = (d, z)"
          and p: "process_loop reg d (new_left c left) z = Inr s'"
          by (auto simp: Let_def split: prod.splits)
        have u: "untagged reg (unread (emit c s))"
          using unt untagged_suffix [of reg "in_hand c" "unread s"] by simp
        from round [OF g p _ _ u nE] snd
        have "stdout s' = stdout (emit c s) @ unread (emit c s)" by simp
        then show ?thesis by (simp add: stdout_emit_hand)
      next
        case sl: True
        then have ih: "in_hand c = ''/''" by (simp add: in_hand_def)
        obtain p1 s1 where pk1: "peek s = (p1, s1)" by force
        note k1 = peek_unread [OF pk1, rule_format, OF snd]
        from peek_remaining [OF pk1] have m1: "remaining s1 \<le> remaining s" .
        show ?thesis
        proof (cases "p1 = 47")
          case True
          let ?s2 = "line_comment_loop (emit 47 s1)"
          from run' nE nQ sl pk1 True obtain d z where
            g: "get False ?s2 = (d, z)" and p: "process_loop reg d left z = Inr s'"
            by (auto simp: Let_def split: prod.splits)
          have "echoed (emit 47 s1) ?s2"
            using line_comment_loop_echoed [of "emit 47 s1"] k1 by simp
          then obtain t where e0: "sound ?s2"
            "stdout ?s2 = stdout (emit 47 s1) @ t"
            "unread (emit 47 s1) = t @ unread ?s2"
            unfolding echoed_def by blast
          from e0 k1 have e: "sound ?s2" "stdout ?s2 = stdout s @ ''/'' @ t"
            "unread s = t @ unread ?s2"
            by (simp_all add: stdout_emit_hand in_hand_def)
          have m: "remaining ?s2 \<le> remaining s"
            using line_comment_loop_remaining [of "emit 47 s1"] m1 by simp
          have u: "untagged reg (unread ?s2)"
            using unt e(3) untagged_suffix [of reg "in_hand c @ t" "unread ?s2"] by simp
          from round [OF g p e(1) m u nE] e ih show ?thesis by simp
        next
          case nS: False
          obtain p2 s2 where pk2: "peek s1 = (p2, s2)" by force
          from k1 have snd1: "sound s1" by simp
          note k2 = peek_unread [OF pk2, rule_format, OF snd1]
          from peek_remaining [OF pk2] m1 have m2: "remaining s2 \<le> remaining s" by simp
          from k1 k2 have p12: "p2 = p1" by simp
          show ?thesis
          proof (cases "p2 = 42")
            case False
            let ?s3 = "emit 47 s2"
            from run' nE nQ sl pk1 nS pk2 False obtain s4 d z where
              rx: "(if pre_regexp left then regexp False ?s3 else Inr ?s3) = Inr s4"
              and g: "get False s4 = (d, z)"
              and p: "process_loop reg d 47 z = Inr s'"
              by (auto simp: Let_def
                  split: prod.splits sum.splits)
            have e3: "echoed ?s3 s4 \<and> remaining s4 \<le> remaining ?s3"
              using rx k2 regexp_echoed [of False ?s3 s4] regexp_rem [of False ?s3 s4]
              by (auto simp: echoed_refl split: if_splits)
            then obtain t where e0: "sound s4" "stdout s4 = stdout ?s3 @ t"
              "unread ?s3 = t @ unread s4"
              unfolding echoed_def by blast
            from e0 k1 k2 have e: "sound s4" "stdout s4 = stdout s @ ''/'' @ t"
              "unread s = t @ unread s4"
              by (simp_all add: stdout_emit_hand in_hand_def)
            have m: "remaining s4 \<le> remaining s" using e3 m2 by simp
            have u: "untagged reg (unread s4)"
              using unt e(3) untagged_suffix [of reg "in_hand c @ t" "unread s4"] by simp
            from round [OF g p e(1) m u nE] e ih show ?thesis by simp
          next
            case star: True
            obtain c1 s3 where g1: "get False s2 = (c1, s3)" by force
            obtain i tag c2 s4 where tl: "tag_loop 0 [] c1 s3 = (i, tag, c2, s4)"
              by (cases "tag_loop 0 [] c1 s3") auto
            let ?s5 = "unget c2 s4"
            let ?k = "if i = 0 then - 1 else match reg tag"
            from k1 k2 star p12 obtain post where us: "unread s = CHR ''*'' # post"
              "unread s2 = CHR ''*'' # post"
              by (cases "unread s") (auto simp: ascii_literals split: list.splits)
            from get_unread [OF g1] k2 us have h3: "sound s3" "unread s3 = post"
              "stdout s3 = stdout s"
              using k1 by auto
            from unt ih us have hd: "length (tag_run post) < MAX_TAG_LENGTH"
              "tag_run post \<noteq> [] \<longrightarrow> match reg (tag_run post) < 0"
              using untagged_head [of reg post] by simp_all
            from tag_loop_unread [OF tl h3(1)] hd(1) h3
            have t: "tag = tag_run post" "i = length tag" "sound ?s5"
              "unread ?s5 = drop (length (tag_run post)) post" "stdout s4 = stdout s"
              by simp_all
            from t hd(2) have k: "\<not> 0 \<le> ?k" by auto
            let ?s6 = "emits tag (emits ''/*'' ?s5)"
            from run' nE nQ sl pk1 nS pk2 star g1 tl k obtain s7 d z where
              cl: "comment_loop c2 ?s6 = Inr s7"
              and g: "get False s7 = (d, z)"
              and p: "process_loop reg d left z = Inr s'"
              by (auto simp: Let_def
                  split: prod.splits sum.splits if_splits)
            have "echoed ?s6 s7" using comment_loop_echoed [OF cl] t by simp
            then obtain w where e0: "sound s7" "stdout s7 = stdout ?s6 @ w"
              "unread ?s6 = w @ unread s7"
              unfolding echoed_def by blast
            from e0 t have e: "sound s7" "stdout s7 = stdout s @ ''/*'' @ tag @ w"
              "unread ?s5 = w @ unread s7"
              by (simp_all add: unget_def)
            have m5: "remaining ?s5 \<le> remaining s"
              using tag_loop_remaining [OF tl] get_rem [OF g1] m2 by (auto split: if_splits)
            have m: "remaining s7 \<le> remaining s"
              using comment_loop_remaining [OF cl] m5 by simp
            have whole: "unread s = ''*'' @ tag @ w @ unread s7"
              using us t e(3) tag_run_append_drop [of post] by simp
            have u: "untagged reg (unread s7)"
              using unt whole untagged_suffix [of reg "in_hand c @ ''*'' @ tag @ w" "unread s7"]
              by simp
            from round [OF g p e(1) m u nE] e ih whole show ?thesis by simp
          qed
        qed
      qed
    qed
  qed
qed


lemma main_loop_stdin:
  "main_loop args comment c reg s = Inr (reg', s') \<Longrightarrow>
     stdin s' = stdin s \<and> preview s' = preview s"
  by (induction args comment c reg s rule: main_loop.induct)
    (auto simp: error_def Let_def split: if_splits prod.splits)

text \<open>
  C2. The claim: whenever the input holds no tagged comment that the registry matches,
  the output equals the input byte for byte. That fails in three ways that are the
  program's design: a \<open>-comment\<close> argument puts a line before the text, a zero byte is
  taken for the end of the stream, and a comment within a comment stops the run.
  What holds: for an input without zero bytes in which no \<open>/*\<close> is followed by a
  registered tag (nor by 80 or more identifier characters), a run that ends without
  an error has written what the command line loop wrote, followed by the input.
\<close>

theorem passthrough_without_matching_tag:
  assumes "main_loop args False EOF []
             \<lparr>stdin = input, stdout = [], preview = 0, cr = False, line_nr = 0\<rparr> = Inr (reg, s)"
    and "main args input = Inr output"
    and "CHR 0x00 \<notin> set input"
    and "untagged reg input"
  shows "output = stdout s @ input"
proof -
  from main_loop_stdin [OF assms(1)] have s: "stdin s = input" "preview s = 0" by simp_all
  from assms(1,2) obtain s' where p: "process reg s = Inr s'" and o: "output = stdout s'"
    by (auto simp: main_def split: sum.splits)
  let ?s1 = "s\<lparr>line_nr := 1\<rparr>"
  obtain c z where g: "get False ?s1 = (c, z)" by force
  from p g have run: "process_loop reg c 0 z = Inr s'"
    by (simp add: process_def Let_def)
  have "ascii b \<noteq> 0" if "b \<in> set input" for b
    using that assms(3) of_char_eq_iff [of b "CHR 0x00", where ?'a = int] by auto
  then have snd: "sound ?s1" and u: "unread ?s1 = input"
    using s by (simp_all add: sound_def unread_def pending_def)
  from get_hand [OF g] snd u have h: "sound z" "stdout z = stdout s"
    "input = in_hand c @ unread z" "c = EOF \<longrightarrow> unread z = []" "c = EOF \<or> (0 < c \<and> c < 256)"
    by simp_all
  from h(5) have "c = EOF \<or> (0 \<le> c \<and> c < 256)" by auto
  from process_loop_passthrough [OF run h(1) h(4) this] assms(4) h(2,3) o
  show ?thesis by simp
qed

theorem passthrough_without_matching_tag_witness:
  "main_loop [''-comment'', ''Devel Edition'', ''debug''] False EOF []
      \<lparr>stdin = ''a = b/c/d; /*note x*/ x=/abc/; // end'', stdout = [], preview = 0, cr = False,
       line_nr = 0\<rparr>
     = Inr ([(''debug'', [])],
        \<lparr>stdin = ''a = b/c/d; /*note x*/ x=/abc/; // end'',
         stdout = ''// Devel Edition'' @ [CHR 0x0A], preview = 0, cr = False, line_nr = 0\<rparr>)
   \<and> CHR 0x00 \<notin> set ''a = b/c/d; /*note x*/ x=/abc/; // end''
   \<and> untagged [(''debug'', [])] ''a = b/c/d; /*note x*/ x=/abc/; // end''
   \<and> main [''-comment'', ''Devel Edition'', ''debug''] ''a = b/c/d; /*note x*/ x=/abc/; // end''
     = Inr (''// Devel Edition'' @ [CHR 0x0A] @ ''a = b/c/d; /*note x*/ x=/abc/; // end'')"
proof -
  let ?input = "''a = b/c/d; /*note x*/ x=/abc/; // end''"
  let ?s = "\<lparr>stdin = ?input, stdout = ''// Devel Edition'' @ [CHR 0x0A], preview = 0,
             cr = False, line_nr = 0\<rparr>"
  have a: "main_loop [''-comment'', ''Devel Edition'', ''debug''] False EOF []
      \<lparr>stdin = ?input, stdout = [], preview = 0, cr = False, line_nr = 0\<rparr>
     = Inr ([(''debug'', [])], ?s)"
    by code_simp
  have b: "main [''-comment'', ''Devel Edition'', ''debug''] ?input
     = Inr (''// Devel Edition'' @ [CHR 0x0A] @ ?input)"
    by code_simp
  have c: "CHR 0x00 \<notin> set ?input" by simp
  have d: "untagged [(''debug'', [])] ?input" by code_simp
  from passthrough_without_matching_tag [OF a b c d] a b c d show ?thesis by blast
qed

theorem passthrough_counterexample:
  "main [''-comment'', ''x''] ''a'' = Inr (''// x'' @ [CHR 0x0A] @ ''a'')
   \<and> main [] [CHR ''a'', CHR 0x00, CHR ''b''] = Inr ''a''
   \<and> main [] ''/* a /* b */'' = Inl (Failure 1 ''nested comment.'' ''/* a /*'')"
  by code_simp

subsection \<open>Comments whose tag does not match\<close>

text \<open>
  The three ways in which the text of a comment can end: with the terminator (what was
  read up to and including it, and the text after it), with a slash followed by a star
  or a slash (what was read up to and including that pair), or with the stream.
\<close>

datatype ending = Closed string string | Nested string | Unclosed

fun add_read :: "string \<Rightarrow> ending \<Rightarrow> ending" where
  "add_read a (Closed t rest) = Closed (a @ t) rest"
| "add_read a (Nested t) = Nested (a @ t)"
| "add_read a Unclosed = Unclosed"

text \<open>
  The end of a comment, read from its text character by character; \<open>c\<close> is the character
  before the text. The first of the pairs \<open>*/\<close>, \<open>/*\<close> and \<open>//\<close> decides.
\<close>

fun closing :: "char \<Rightarrow> string \<Rightarrow> ending" where
  "closing c [] = Unclosed"
| "closing c (b # t) =
     (if c = CHR ''/'' \<and> (b = CHR ''*'' \<or> b = CHR ''/'') then Nested [b]
      else if c = CHR ''*'' \<and> b = CHR ''/'' then Closed [b] t
      else add_read [b] (closing b t))"

lemma closing_plain:
  "c \<noteq> CHR ''/'' \<Longrightarrow> c \<noteq> CHR ''*'' \<Longrightarrow> closing c t = closing CHR '' '' t"
  by (cases t) simp_all

lemma add_read_append: "add_read a (add_read b e) = add_read (a @ b) e"
  by (cases e) simp_all

lemma closing_append:
  "list_all (\<lambda>b. b \<noteq> CHR ''/'' \<and> b \<noteq> CHR ''*'') a \<Longrightarrow> c \<noteq> CHR ''/'' \<Longrightarrow> c \<noteq> CHR ''*'' \<Longrightarrow>
     closing c (a @ t) = add_read a (closing CHR '' '' t)"
proof (induction a arbitrary: c)
  case Nil
  have "add_read [] e = e" for e by (cases e) simp_all
  with closing_plain [OF Nil(2,3), of t] show ?case by simp
next
  case (Cons b a)
  then show ?case by (simp add: add_read_append)
qed

text \<open>A round of the loop after the first: \<open>c\<close> is the last character read.\<close>

lemma comment_loop_closing:
  "sound s \<Longrightarrow> 0 < c \<Longrightarrow> c < 256 \<Longrightarrow>
     (case closing (char_of c) (unread s) of
        Closed t rest \<Rightarrow> \<exists>s'. comment_loop c s = Inr s' \<and> sound s' \<and> unread s' = rest \<and>
                           stdout s' = stdout s @ t
      | Nested t \<Rightarrow> \<exists>n. comment_loop c s = Inl (Failure n ''nested comment.'' (stdout s @ t))
      | Unclosed \<Rightarrow> \<exists>n w. comment_loop c s = Inl (Failure n ''unterminated comment.'' w))"
proof (induction "unread s" arbitrary: c s)
  case Nil
  obtain c1 s1 where g: "get True s = (c1, s1)" by force
  from get_unread [OF g] Nil have "c1 = EOF" by simp
  with g Nil show ?case
    by (subst comment_loop.simps) (simp add: comment_loop.simps [of EOF] error_def)
next
  case (Cons b t)
  obtain c1 s1 where g: "get True s = (c1, s1)" by force
  from get_unread [OF g] Cons.prems(1) Cons.hyps(2) [symmetric]
  have u: "c1 = ascii b" "0 < c1" "sound s1" "unread s1 = t" "stdout s1 = stdout s @ [b]"
    by simp_all
  have cb: "char_of c1 = b" using u(1) by simp
  have c47: "char_of c = CHR ''/'' \<longleftrightarrow> c = 47" and c42: "char_of c = CHR ''*'' \<longleftrightarrow> c = 42"
    using Cons.prems(2,3) by (auto simp: char_of_eq_iff take_bit_eq_mod)
  have b47: "b = CHR ''/'' \<longleftrightarrow> c1 = 47" and b42: "b = CHR ''*'' \<longleftrightarrow> c1 = 42"
    using u(1) by (auto simp: ascii_literals)
  note IH = Cons.hyps(1) [OF u(4) [symmetric] u(3) u(2), unfolded cb u(4)]
  have lt: "c1 < 256" using u(1) ascii_less_256 [of b] by simp
  consider (nested) "c = 47" "c1 = 42 \<or> c1 = 47" | (closed) "c = 42" "c1 = 47"
    | (more) "\<not> (c = 47 \<and> (c1 = 42 \<or> c1 = 47))" "\<not> (c = 42 \<and> c1 = 47)"
    by blast
  then show ?case
  proof cases
    case nested
    then show ?thesis
      using g u Cons.hyps(2) [symmetric] c47 b47 b42
      by (subst comment_loop.simps) (auto simp: error_def)
  next
    case closed
    then show ?thesis
      using g u Cons.hyps(2) [symmetric] c47 c42 b47 b42
      by (subst comment_loop.simps) auto
  next
    case more
    then have eq: "comment_loop c s = comment_loop c1 s1"
      using g Cons.prems(2) by (subst comment_loop.simps) auto
    have cl: "closing (char_of c) (unread s) = add_read [b] (closing b t)"
      using more Cons.hyps(2) [symmetric] c47 c42 b47 b42 by auto
    from IH [OF lt] show ?thesis
      unfolding eq cl using u(5)
      by (cases "closing b t") auto
  qed
qed


lemma closing_Closed:
  "closing c u = Closed t rest \<Longrightarrow> u = t @ rest \<and> (\<exists>body. c # t = body @ ''*/'')"
proof (induction u arbitrary: c t)
  case Nil
  then show ?case by simp
next
  case (Cons b u)
  show ?case
  proof (cases "c = CHR ''*'' \<and> b = CHR ''/''")
    case True
    with Cons.prems show ?thesis by auto
  next
    case False
    with Cons.prems obtain t' where t': "closing b u = Closed t' rest" "t = b # t'"
      by (cases "closing b u") (auto split: if_splits)
    from Cons.IH [OF t'(1)] obtain body where "u = t' @ rest" "b # t' = body @ ''*/''"
      by blast
    with t'(2) have "b # u = t @ rest" "c # t = (c # body) @ ''*/''" by simp_all
    then show ?thesis by blast
  qed
qed

lemma closing_blank_Closed:
  "closing CHR '' '' u = Closed t rest \<Longrightarrow> u = t @ rest \<and> (\<exists>body. t = body @ ''*/'')"
proof -
  assume a: "closing CHR '' '' u = Closed t rest"
  from closing_Closed [OF a] obtain body where b: "u = t @ rest" "CHR '' '' # t = body @ ''*/''"
    by blast
  then obtain body' where "body = CHR '' '' # body'" by (cases body) auto
  with b show ?thesis by auto
qed

text \<open>The first round: \<open>c\<close> is the character that the tag loop pushed back, still unread.\<close>

lemma comment_loop_first_closing:
  assumes snd: "sound s" and hand: "in_hand c = take 1 (unread s)"
    and range: "c = EOF \<or> (0 < c \<and> c < 256)" and ns: "take 1 (unread s) \<noteq> ''/''"
  shows "case closing CHR '' '' (unread s) of
        Closed t rest \<Rightarrow> \<exists>s'. comment_loop c s = Inr s' \<and> sound s' \<and> unread s' = rest \<and>
                           stdout s' = stdout s @ t
      | Nested t \<Rightarrow> \<exists>n. comment_loop c s = Inl (Failure n ''nested comment.'' (stdout s @ t))
      | Unclosed \<Rightarrow> \<exists>n w. comment_loop c s = Inl (Failure n ''unterminated comment.'' w)"
proof (cases "unread s")
  case Nil
  with hand range have "c = EOF" by (auto simp: in_hand_def)
  with Nil show ?thesis by (simp add: comment_loop.simps [of EOF] error_def)
next
  case (Cons b t)
  with hand range have c: "0 < c" "c < 256" "char_of c = b"
    by (auto simp: in_hand_def split: if_splits)
  then have cb: "c = ascii b" by auto
  obtain c1 s1 where g: "get True s = (c1, s1)" by force
  from get_unread [OF g] snd Cons
  have u: "c1 = ascii b" "sound s1" "unread s1 = t" "stdout s1 = stdout s @ [b]"
    by simp_all
  from ns Cons have "b \<noteq> CHR ''/''" by simp
  then have "c \<noteq> 47" using cb by (simp add: ascii_literals)
  then have eq: "comment_loop c s = comment_loop c s1"
    using g u(1) cb c(1) by (subst comment_loop.simps) auto
  have cl: "closing CHR '' '' (unread s) = add_read [b] (closing b t)"
    using Cons by simp
  from comment_loop_closing [OF u(2) c(1,2)] show ?thesis
    unfolding eq cl c(3) u(3) using u(4)
    by (cases "closing b t") auto
qed

lemma tag_run_plain: "list_all (\<lambda>b. b \<noteq> CHR ''/'' \<and> b \<noteq> CHR ''*'') (tag_run t)"
  by (auto simp: list_all_iff tag_run_def is_alphanum_def dest!: set_takeWhileD)

text \<open>The driver with the opening slash of a comment in hand whose tag does not match.\<close>

lemma process_loop_unmatched_comment:
  assumes "sound s" and "unread s = ''*'' @ post"
    and "length (tag_run post) < MAX_TAG_LENGTH"
    and "tag_run post = [] \<or> match reg (tag_run post) < 0"
    and "take 1 (drop (length (tag_run post)) post) \<noteq> ''/''"
  shows "case closing CHR '' '' post of
      Closed t rest \<Rightarrow>
        post = t @ rest \<and> (\<exists>body. t = body @ ''*/'') \<and>
        (\<exists>s'. sound s' \<and> unread s' = rest \<and> stdout s' = stdout s @ ''/*'' @ t \<and>
           process_loop reg (ascii CHR ''/'') left s
             = (case get False s' of (c, z) \<Rightarrow> process_loop reg c left z))
    | Nested t \<Rightarrow>
        \<exists>n. process_loop reg (ascii CHR ''/'') left s
               = Inl (Failure n ''nested comment.'' (stdout s @ ''/*'' @ t))
    | Unclosed \<Rightarrow>
        \<exists>n w. process_loop reg (ascii CHR ''/'') left s
                 = Inl (Failure n ''unterminated comment.'' w)"
proof -
  obtain p1 s1 where pk1: "peek s = (p1, s1)" by force
  note k1 = peek_unread [OF pk1, rule_format, OF assms(1)]
  obtain p2 s2 where pk2: "peek s1 = (p2, s2)" by force
  from k1 have snd1: "sound s1" by simp
  note k2 = peek_unread [OF pk2, rule_format, OF snd1]
  from k1 k2 assms(2) have p: "p1 = 42" "p2 = 42" "unread s2 = CHR ''*'' # post" "sound s2"
    "stdout s2 = stdout s"
    by simp_all
  obtain c1 s3 where g1: "get False s2 = (c1, s3)" by force
  from get_unread [OF g1] p have h3: "sound s3" "unread s3 = post" "stdout s3 = stdout s"
    by auto
  obtain i tag c2 s4 where tl: "tag_loop 0 [] c1 s3 = (i, tag, c2, s4)"
    by (cases "tag_loop 0 [] c1 s3") auto
  let ?s5 = "unget c2 s4"
  from tag_loop_unread [OF tl h3(1)] assms(3) h3
  have t: "tag = tag_run post" "i = length tag" "sound ?s5"
    "unread ?s5 = drop (length (tag_run post)) post" "stdout s4 = stdout s"
    "in_hand c2 = take 1 (unread ?s5)" "c2 = EOF \<or> (0 < c2 \<and> c2 < 256)"
    by simp_all
  let ?k = "if i = 0 then - 1 else match reg tag"
  from t assms(4) have k: "\<not> 0 \<le> ?k" by auto
  let ?s6 = "emits tag (emits ''/*'' ?s5)"
  have eq: "process_loop reg 47 left s =
      (case comment_loop c2 ?s6 of Inl e \<Rightarrow> Inl e
       | Inr s \<Rightarrow> (case get False s of (c, z) \<Rightarrow> process_loop reg c left z))"
    using pk1 pk2 p g1 tl k
    by (subst process_loop.simps) (simp add: quotes_def Let_def split: sum.splits)
  have s6: "sound ?s6" "in_hand c2 = take 1 (unread ?s6)" "take 1 (unread ?s6) \<noteq> ''/''"
    "unread ?s6 = drop (length tag) post" "stdout ?s6 = stdout s @ ''/*'' @ tag"
    using t assms(5) by (simp_all add: unget_def)
  have "post = tag @ unread ?s6" using t tag_run_append_drop [of post] by simp
  then have "closing CHR '' '' post = closing CHR '' '' (tag @ unread ?s6)" by simp
  also have "\<dots> = add_read tag (closing CHR '' '' (unread ?s6))"
    using closing_append [of tag "CHR '' ''" "unread ?s6"] tag_run_plain [of post] t(1)
    by simp
  finally have cl: "closing CHR '' '' post = add_read tag (closing CHR '' '' (unread ?s6))" .
  note first = comment_loop_first_closing [OF s6(1,2) t(7) s6(3)]
  have lit: "ascii CHR ''/'' = 47" by simp
  show ?thesis
  proof (cases "closing CHR '' '' (unread ?s6)")
    case (Closed u rest)
    with first obtain s7 where s7: "comment_loop c2 ?s6 = Inr s7" "sound s7" "unread s7 = rest"
      "stdout s7 = stdout ?s6 @ u"
      by auto
    from cl Closed have c: "closing CHR '' '' post = Closed (tag @ u) rest" by simp
    from closing_blank_Closed [OF c]
    have w: "post = (tag @ u) @ rest" "\<exists>body. tag @ u = body @ ''*/''" by blast+
    have o: "stdout s7 = stdout s @ ''/*'' @ (tag @ u)" using s7(4) s6(5) by simp
    have e: "process_loop reg 47 left s
        = (case get False s7 of (c, z) \<Rightarrow> process_loop reg c left z)"
      using eq s7(1) by simp
    show ?thesis unfolding c ending.case lit using w o e s7(2,3) by blast
  next
    case (Nested u)
    with first obtain n where "comment_loop c2 ?s6 = Inl (Failure n ''nested comment.'' (stdout ?s6 @ u))"
      by auto
    with s6(5) eq have "process_loop reg 47 left s
        = Inl (Failure n ''nested comment.'' (stdout s @ ''/*'' @ (tag @ u)))"
      by simp
    moreover from cl Nested have "closing CHR '' '' post = Nested (tag @ u)" by simp
    ultimately show ?thesis unfolding lit by (simp del: append_assoc)
  next
    case Unclosed
    with first obtain n w where "comment_loop c2 ?s6 = Inl (Failure n ''unterminated comment.'' w)"
      by auto
    with eq have "process_loop reg 47 left s = Inl (Failure n ''unterminated comment.'' w)"
      by simp
    moreover from cl Unclosed have "closing CHR '' '' post = Unclosed" by simp
    ultimately show ?thesis unfolding lit by simp
  qed
qed

text \<open>
  C9. The claim: every block comment whose identifier run fails the lookup, or is empty,
  is echoed verbatim up to its real end. That fails where the program stops with an
  error by design: a \<open>/\<close> followed by \<open>*\<close> or \<open>/\<close> within the comment is the nested
  comment error, and the end of the stream within it the unterminated comment error.
  What holds, for an input without zero bytes, a run of fewer than 80 identifier
  characters and a character other than \<open>/\<close> after the run: the driver has the opening
  slash in hand and the star next, and \<open>post\<close> is the text after the star.

  \<^item> If the first of the pairs \<open>*/\<close>, \<open>/*\<close> and \<open>//\<close> in \<open>post\<close> is \<open>*/\<close>, the driver writes \<open>/*\<close>
    and \<open>post\<close> up to and including that \<open>*/\<close>, and goes on with the character after it
    and the same \<open>left\<close>.
  \<^item> If it is \<open>/*\<close> or \<open>//\<close>, the driver fails with \<open>nested comment.\<close>, having written \<open>/*\<close>
    and \<open>post\<close> up to and including that pair.
  \<^item> If there is none, the driver fails with \<open>unterminated comment.\<close>
\<close>

theorem unmatched_comment_is_echoed:
  assumes "sound s" and "unread s = ''*'' @ post"
    and "length (tag_run post) < MAX_TAG_LENGTH"
    and "tag_run post = [] \<or> match reg (tag_run post) < 0"
    and "take 1 (drop (length (tag_run post)) post) \<noteq> ''/''"
  shows "case closing CHR '' '' post of
      Closed t rest \<Rightarrow>
        post = t @ rest \<and> (\<exists>body. t = body @ ''*/'') \<and>
        (\<exists>s'. sound s' \<and> unread s' = rest \<and> stdout s' = stdout s @ ''/*'' @ t \<and>
           process_loop reg (ascii CHR ''/'') left s
             = (case get False s' of (c, z) \<Rightarrow> process_loop reg c left z))
    | Nested t \<Rightarrow>
        \<exists>n. process_loop reg (ascii CHR ''/'') left s
               = Inl (Failure n ''nested comment.'' (stdout s @ ''/*'' @ t))
    | Unclosed \<Rightarrow>
        \<exists>n w. process_loop reg (ascii CHR ''/'') left s
                 = Inl (Failure n ''unterminated comment.'' w)"
  using assms by (rule process_loop_unmatched_comment)

theorem unmatched_comment_is_echoed_witness:
  "sound \<lparr>stdin = ''*note x*/ y'', stdout = ''a '', preview = 0, cr = False, line_nr = 1\<rparr>
   \<and> unread \<lparr>stdin = ''*note x*/ y'', stdout = ''a '', preview = 0, cr = False, line_nr = 1\<rparr> = ''*'' @ ''note x*/ y''
   \<and> length (tag_run ''note x*/ y'') < MAX_TAG_LENGTH
   \<and> (tag_run ''note x*/ y'' = [] \<or> match [(''debug'', [])] (tag_run ''note x*/ y'') < 0)
   \<and> take 1 (drop (length (tag_run ''note x*/ y'')) ''note x*/ y'') \<noteq> ''/''
   \<and> sound \<lparr>stdin = ''*note a/*b*/ x'', stdout = ''a '', preview = 0, cr = False, line_nr = 1\<rparr>
   \<and> unread \<lparr>stdin = ''*note a/*b*/ x'', stdout = ''a '', preview = 0, cr = False, line_nr = 1\<rparr> = ''*'' @ ''note a/*b*/ x''
   \<and> length (tag_run ''note a/*b*/ x'') < MAX_TAG_LENGTH
   \<and> (tag_run ''note a/*b*/ x'' = [] \<or> match [(''debug'', [])] (tag_run ''note a/*b*/ x'') < 0)
   \<and> take 1 (drop (length (tag_run ''note a/*b*/ x'')) ''note a/*b*/ x'') \<noteq> ''/''
   \<and> sound \<lparr>stdin = ''*note'', stdout = ''a '', preview = 0, cr = False, line_nr = 1\<rparr>
   \<and> unread \<lparr>stdin = ''*note'', stdout = ''a '', preview = 0, cr = False, line_nr = 1\<rparr> = ''*'' @ ''note''
   \<and> length (tag_run ''note'') < MAX_TAG_LENGTH
   \<and> (tag_run ''note'' = [] \<or> match [(''debug'', [])] (tag_run ''note'') < 0)
   \<and> take 1 (drop (length (tag_run ''note'')) ''note'') \<noteq> ''/''
   \<and> closing CHR '' '' ''note x*/ y'' = Closed ''note x*/'' '' y''
   \<and> (\<exists>s'. sound s' \<and> unread s' = '' y'' \<and>
          stdout s' = stdout \<lparr>stdin = ''*note x*/ y'', stdout = ''a '', preview = 0, cr = False, line_nr = 1\<rparr> @ ''/*'' @ ''note x*/'' \<and>
          process_loop [(''debug'', [])] (ascii CHR ''/'') 0 \<lparr>stdin = ''*note x*/ y'', stdout = ''a '', preview = 0, cr = False, line_nr = 1\<rparr>
            = (case get False s' of (c, z) \<Rightarrow> process_loop [(''debug'', [])] c 0 z))
   \<and> closing CHR '' '' ''note a/*b*/ x'' = Nested ''note a/*''
   \<and> (\<exists>n. process_loop [(''debug'', [])] (ascii CHR ''/'') 0 \<lparr>stdin = ''*note a/*b*/ x'', stdout = ''a '', preview = 0, cr = False, line_nr = 1\<rparr>
          = Inl (Failure n ''nested comment.'' (stdout \<lparr>stdin = ''*note a/*b*/ x'', stdout = ''a '', preview = 0, cr = False, line_nr = 1\<rparr> @ ''/*'' @ ''note a/*'')))
   \<and> closing CHR '' '' ''note'' = Unclosed
   \<and> (\<exists>n w. process_loop [(''debug'', [])] (ascii CHR ''/'') 0 \<lparr>stdin = ''*note'', stdout = ''a '', preview = 0, cr = False, line_nr = 1\<rparr>
          = Inl (Failure n ''unterminated comment.'' w))"
proof -
  let ?sa = "\<lparr>stdin = ''*note x*/ y'', stdout = ''a '', preview = 0, cr = False, line_nr = 1\<rparr>"
  let ?sb = "\<lparr>stdin = ''*note a/*b*/ x'', stdout = ''a '', preview = 0, cr = False, line_nr = 1\<rparr>"
  let ?sc = "\<lparr>stdin = ''*note'', stdout = ''a '', preview = 0, cr = False, line_nr = 1\<rparr>"
  have ha: "sound ?sa" by (simp add: sound_def)
  have ua: "unread ?sa = ''*'' @ ''note x*/ y''" by (simp add: unread_def pending_def)
  have la: "length (tag_run ''note x*/ y'') < MAX_TAG_LENGTH" by code_simp
  have ma: "tag_run ''note x*/ y'' = [] \<or> match [(''debug'', [])] (tag_run ''note x*/ y'') < 0" by code_simp
  have da: "take 1 (drop (length (tag_run ''note x*/ y'')) ''note x*/ y'') \<noteq> ''/''" by code_simp
  have hb: "sound ?sb" by (simp add: sound_def)
  have ub: "unread ?sb = ''*'' @ ''note a/*b*/ x''" by (simp add: unread_def pending_def)
  have lb: "length (tag_run ''note a/*b*/ x'') < MAX_TAG_LENGTH" by code_simp
  have mb: "tag_run ''note a/*b*/ x'' = [] \<or> match [(''debug'', [])] (tag_run ''note a/*b*/ x'') < 0" by code_simp
  have db: "take 1 (drop (length (tag_run ''note a/*b*/ x'')) ''note a/*b*/ x'') \<noteq> ''/''" by code_simp
  have hc: "sound ?sc" by (simp add: sound_def)
  have uc: "unread ?sc = ''*'' @ ''note''" by (simp add: unread_def pending_def)
  have lc: "length (tag_run ''note'') < MAX_TAG_LENGTH" by code_simp
  have mc: "tag_run ''note'' = [] \<or> match [(''debug'', [])] (tag_run ''note'') < 0" by code_simp
  have dc: "take 1 (drop (length (tag_run ''note'')) ''note'') \<noteq> ''/''" by code_simp
  have ca: "closing CHR '' '' ''note x*/ y'' = Closed ''note x*/'' '' y''" by code_simp
  have cb: "closing CHR '' '' ''note a/*b*/ x'' = Nested ''note a/*''" by code_simp
  have cc: "closing CHR '' '' ''note'' = Unclosed" by code_simp
  note ta = unmatched_comment_is_echoed [OF ha ua la ma da, of 0, unfolded ca ending.case]
  note tb = unmatched_comment_is_echoed [OF hb ub lb mb db, of 0, unfolded cb ending.case]
  note tc = unmatched_comment_is_echoed [OF hc uc lc mc dc, of 0, unfolded cc ending.case]
  from ta have ta': "\<exists>s'. sound s' \<and> unread s' = '' y'' \<and>           stdout s' = stdout ?sa @ ''/*'' @ ''note x*/'' \<and>           process_loop [(''debug'', [])] (ascii CHR ''/'') 0 ?sa             = (case get False s' of (c, z) \<Rightarrow> process_loop [(''debug'', [])] c 0 z)" by blast
  from ha ua la ma da hb ub lb mb db hc uc lc mc dc ca cb cc ta' tb tc show ?thesis by blast
qed

theorem unmatched_comment_counterexample:
  "main [] ''/*note a/*b*/ x'' = Inl (Failure 1 ''nested comment.'' ''/*note a/*'')"
  by code_simp

subsection \<open>The character to the left of a slash\<close>

text \<open>
  The characters that the driver echoes by its last branch: no quote, no slash, no zero
  byte.
\<close>

definition ordinary :: "char \<Rightarrow> bool" where
  "ordinary b \<longleftrightarrow> ascii b \<noteq> 0 \<and> \<not> quotes (ascii b) \<and> b \<noteq> CHR ''/''"

text \<open>
  The most recent character above the space in a text, or \<open>left\<close> when the text has none.
\<close>

definition last_significant :: "int \<Rightarrow> string \<Rightarrow> int" where
  "last_significant left p =
     (case filter (\<lambda>b. ascii b > ascii CHR '' '') p of
        [] \<Rightarrow> left
      | b # bs \<Rightarrow> ascii (last (b # bs)))"

lemma last_significant_Nil [simp]: "last_significant left [] = left"
  by (simp add: last_significant_def)

lemma last_significant_Cons:
  "last_significant left (b # p) = last_significant (new_left (ascii b) left) p"
  by (auto simp: last_significant_def new_left_def split: list.splits)

lemma process_loop_ordinary_run:
  "\<forall>b \<in> set p. ordinary b \<Longrightarrow> sound s \<Longrightarrow> unread s = tl (p @ [x]) @ rest \<Longrightarrow>
     \<exists>s'. sound s' \<and> unread s' = rest \<and> stdout s' = stdout s @ p \<and>
       process_loop reg (ascii (hd (p @ [x]))) left s
         = process_loop reg (ascii x) (last_significant left p) s'"
proof (induction p arbitrary: left s)
  case Nil
  then show ?case by auto
next
  case (Cons b p)
  from Cons.prems have ob: "ordinary b" by simp
  then have b0: "0 < ascii b" "ascii b \<noteq> 47"
    by (auto simp: ordinary_def ascii_sign ascii_literals)
  obtain c z where g: "get False (emit (ascii b) s) = (c, z)" by force
  from Cons.prems have u: "unread (emit (ascii b) s) = hd (p @ [x]) # tl (p @ [x]) @ rest"
    by (cases p) simp_all
  from get_unread [OF g] Cons.prems(2) u
  have h: "sound z" "c = ascii (hd (p @ [x]))" "unread z = tl (p @ [x]) @ rest"
    "stdout z = stdout s @ [b]"
    using b0 by (simp_all add: stdout_emit)
  from Cons.IH [OF _ h(1) h(3), of "new_left (ascii b) left"] Cons.prems(1)
  obtain s' where s': "sound s'" "unread s' = rest" "stdout s' = stdout z @ p"
    "process_loop reg (ascii (hd (p @ [x]))) (new_left (ascii b) left) z
       = process_loop reg (ascii x) (last_significant (new_left (ascii b) left) p) s'"
    by auto
  have "process_loop reg (ascii b) left s
      = process_loop reg c (new_left (ascii b) left) z"
    using ob b0 g by (subst process_loop.simps) (simp add: ordinary_def ascii_sign Let_def)
  with s' h show ?case by (auto simp: last_significant_Cons)
qed

lemma peek_comment_none:
  "sound s \<Longrightarrow> take 1 (unread s) \<noteq> ''/'' \<Longrightarrow> take 1 (unread s) \<noteq> ''*'' \<Longrightarrow>
     \<exists>s'. peek_comment s = (False, s') \<and> sound s' \<and> unread s' = unread s \<and> stdout s' = stdout s"
proof -
  assume a: "sound s" "take 1 (unread s) \<noteq> ''/''" "take 1 (unread s) \<noteq> ''*''"
  obtain p1 s1 where pk1: "peek s = (p1, s1)" by force
  note k1 = peek_unread [OF pk1, rule_format, OF a(1)]
  obtain p2 s2 where pk2: "peek s1 = (p2, s2)" by force
  from k1 have "sound s1" by simp
  note k2 = peek_unread [OF pk2, rule_format, OF this]
  from k1 k2 a have "p1 \<noteq> 47" "p2 \<noteq> 42"
    by (cases "unread s"; auto simp: ascii_literals)+
  with pk1 pk2 k1 k2 show ?thesis by (simp add: peek_comment_def)
qed

text \<open>The driver with a lone slash in hand.\<close>

lemma process_loop_lone_slash:
  assumes "sound s" and "take 1 (unread s) \<noteq> ''/''" and "take 1 (unread s) \<noteq> ''*''"
  shows "\<exists>s1. sound s1 \<and> unread s1 = unread s \<and> stdout s1 = stdout s @ ''/'' \<and>
     process_loop reg 47 left s =
       (case (if pre_regexp left then regexp False s1 else Inr s1) of
          Inl e \<Rightarrow> Inl e
        | Inr s2 \<Rightarrow> (case get False s2 of (c, z) \<Rightarrow> process_loop reg c 47 z))"
proof -
  obtain p1 s1 where pk1: "peek s = (p1, s1)" by force
  note k1 = peek_unread [OF pk1, rule_format, OF assms(1)]
  obtain p2 s2 where pk2: "peek s1 = (p2, s2)" by force
  from k1 have "sound s1" by simp
  note k2 = peek_unread [OF pk2, rule_format, OF this]
  from k1 k2 assms have p: "p1 \<noteq> 47" "p2 \<noteq> 42"
    by (cases "unread s"; auto simp: ascii_literals)+
  have "process_loop reg 47 left s =
       (case (if pre_regexp left then regexp False (emit 47 s2) else Inr (emit 47 s2)) of
          Inl e \<Rightarrow> Inl e
        | Inr s2 \<Rightarrow> (case get False s2 of (c, z) \<Rightarrow> process_loop reg c 47 z))"
    using pk1 pk2 p
    by (subst process_loop.simps) (simp add: quotes_def Let_def split: sum.splits)
  moreover have "sound (emit 47 s2)" "unread (emit 47 s2) = unread s"
    "stdout (emit 47 s2) = stdout s @ ''/''"
    using k1 k2 by (simp_all add: stdout_emit)
  ultimately show ?thesis by blast
qed






subsection \<open>The first value of \<open>left\<close>\<close>

lemma skip_spaces_unread:
  "sound s \<Longrightarrow> unread s = replicate n CHR '' '' @ t \<Longrightarrow> take 1 t \<noteq> '' '' \<Longrightarrow>
     sound (skip_spaces s) \<and> unread (skip_spaces s) = t \<and> stdout (skip_spaces s) = stdout s"
proof (induction n arbitrary: s)
  case 0
  obtain p1 s1 where pk: "peek s = (p1, s1)" by force
  note k = peek_unread [OF pk, rule_format, OF "0.prems"(1)]
  from k "0.prems" have "p1 \<noteq> 32" by (cases t) (auto simp: ascii_literals)
  with pk have "skip_spaces s = s1" by (subst skip_spaces.simps) simp
  with k "0.prems" show ?case by simp
next
  case (Suc n)
  obtain p1 s1 where pk: "peek s = (p1, s1)" by force
  note k = peek_unread [OF pk, rule_format, OF Suc.prems(1)]
  obtain c z where g: "get False s1 = (c, z)" by force
  from get_unread [OF g] k Suc.prems
  have h: "p1 = 32" "sound z" "unread z = replicate n CHR '' '' @ t" "stdout z = stdout s"
    by simp_all
  from pk g h have "skip_spaces s = skip_spaces z" by (subst skip_spaces.simps) simp
  with Suc.IH [OF h(2,3) Suc.prems(3)] h show ?case by simp
qed

lemma line_nr_sound [simp]:
  "sound (s\<lparr>line_nr := n\<rparr>) = sound s" "unread (s\<lparr>line_nr := n\<rparr>) = unread s"
  by (simp_all add: sound_def unread_def pending_def)

lemma last_significant_white:
  "\<forall>b \<in> set ws. ascii b \<le> ascii CHR '' '' \<Longrightarrow> last_significant left ws = left"
proof -
  assume "\<forall>b \<in> set ws. ascii b \<le> ascii CHR '' ''"
  then have "filter (\<lambda>b. ascii b > ascii CHR '' '') ws = []"
    by (induction ws) auto
  then show ?thesis by (simp add: last_significant_def)
qed

lemma process_initial_slash:
  assumes "sound s" and "unread s = ws @ ''/'' @ rest"
    and "\<forall>b \<in> set ws. 0 < ascii b \<and> ascii b \<le> ascii CHR '' ''"
    and "take 1 rest \<noteq> ''/''" and "take 1 rest \<noteq> ''*''"
  shows "\<exists>s1. sound s1 \<and> unread s1 = rest \<and> stdout s1 = stdout s @ ws @ ''/'' \<and>
           process reg s = (case get False s1 of (c, z) \<Rightarrow> process_loop reg c 47 z)"
proof -
  let ?s0 = "s\<lparr>line_nr := 1\<rparr>"
  obtain c z where g: "get False ?s0 = (c, z)" by force
  have u0: "unread ?s0 = hd (ws @ ''/'') # tl (ws @ ''/'') @ rest"
    using assms(2) by (cases ws) simp_all
  from get_unread [OF g] assms(1) u0
  have h: "sound z" "c = ascii (hd (ws @ ''/''))" "unread z = tl (ws @ ''/'') @ rest"
    "stdout z = stdout s"
    by simp_all
  have ord: "\<forall>b \<in> set ws. ordinary b"
    using assms(3) by (auto simp: ordinary_def quotes_def ascii_literals)
  from process_loop_ordinary_run [OF ord h(1) h(3), of reg 0]
  obtain s' where s': "sound s'" "unread s' = rest" "stdout s' = stdout s @ ws"
    "process_loop reg c 0 z = process_loop reg 47 (last_significant 0 ws) s'"
    using h by auto
  have ls: "last_significant 0 ws = 0"
    using assms(3) by (intro last_significant_white) auto
  from process_loop_lone_slash [of s' reg 0] s' assms(4,5)
  obtain s1 where s1: "sound s1" "unread s1 = rest" "stdout s1 = stdout s @ ws @ ''/''"
    "process_loop reg 47 0 s' = (case get False s1 of (c, z) \<Rightarrow> process_loop reg c 47 z)"
    by (auto simp: pre_regexp_def)
  have "process reg s = process_loop reg c 0 z"
    using g by (simp add: process_def Let_def)
  with s' ls s1 show ?thesis by (intro exI [of _ s1]) simp
qed

lemma stuff_initial_slash:
  assumes "sound s" and "unread s = replicate n CHR '' '' @ ''/'' @ rest"
    and "take 1 rest \<noteq> ''/''" and "take 1 rest \<noteq> ''*''"
  shows "\<exists>s1. sound s1 \<and> unread s1 = rest \<and> stdout s1 = stdout s @ ''/'' \<and>
           stuff s = (case regexp True s1 of Inl e \<Rightarrow> Inl e | Inr s2 \<Rightarrow> stuff_loop 47 0 s2)"
proof -
  let ?s0 = "skip_spaces s"
  from skip_spaces_unread [OF assms(1,2)]
  have k0: "sound ?s0" "unread ?s0 = ''/'' @ rest" "stdout ?s0 = stdout s" by simp_all
  obtain p1 s1 where pk: "peek ?s0 = (p1, s1)" by force
  note k = peek_unread [OF pk, rule_format, OF k0(1)]
  obtain c z where g: "get True s1 = (c, z)" by force
  from get_unread [OF g] k k0
  have h: "p1 = 47" "c = 47" "sound z" "unread z = rest" "stdout z = stdout s @ ''/''"
    by simp_all
  from peek_comment_none [OF h(3)] h(4) assms(3,4)
  obtain s2 where s2: "peek_comment z = (False, s2)" "sound s2" "unread s2 = rest"
    "stdout s2 = stdout s @ ''/''"
    using h by auto
  have "stuff s = (case regexp True s2 of Inl e \<Rightarrow> Inl e | Inr s3 \<Rightarrow> stuff_loop 47 0 s3)"
    using pk g h s2
    by (simp add: stuff_def stuff_loop.simps [of _ _ "skip_spaces s"] quotes_def opens_def
        closes_def pre_regexp_def new_left_def split: sum.splits)
  with s2 show ?thesis by blast
qed

lemma condition_initial_slash:
  assumes "sound s" and "unread s = ''(/'' @ rest"
    and "take 1 rest \<noteq> ''/''" and "take 1 rest \<noteq> ''*''"
  shows "\<exists>s1. sound s1 \<and> unread s1 = rest \<and> stdout s1 = stdout s @ ''(/'' \<and>
           condition s
             = (case regexp True s1 of Inl e \<Rightarrow> Inl e | Inr s2 \<Rightarrow> condition_loop 47 1 s2)"
proof -
  obtain c1 z1 where g1: "get True s = (c1, z1)" by force
  from get_unread [OF g1] assms(1,2)
  have h1: "c1 = 40" "sound z1" "unread z1 = ''/'' @ rest" "stdout z1 = stdout s @ ''(''"
    by simp_all
  obtain c2 z2 where g2: "get True z1 = (c2, z2)" by force
  from get_unread [OF g2] h1
  have h2: "c2 = 47" "sound z2" "unread z2 = rest" "stdout z2 = stdout s @ ''(/''"
    by simp_all
  from peek_comment_none [OF h2(2)] h2(3) assms(3,4)
  obtain s2 where s2: "peek_comment z2 = (False, s2)" "sound s2" "unread s2 = rest"
    "stdout s2 = stdout s @ ''(/''"
    using h2 by auto
  have a: "condition s = condition_loop 40 1 z1"
    using g1 h1
    by (simp add: condition_def condition_loop.simps [of _ _ s] opens_def new_left_def)
  have b: "condition_loop 40 1 z1
      = (case regexp True s2 of Inl e \<Rightarrow> Inl e | Inr s3 \<Rightarrow> condition_loop 47 1 s3)"
    using g2 h2 s2
    by (simp add: condition_loop.simps [of _ _ z1] opens_def closes_def quotes_def
        pre_regexp_def new_left_def split: sum.splits)
  from a b s2 show ?thesis by (intro exI [of _ s2]) simp
qed


text \<open>
  C10. \<open>process\<close> starts its loop with \<open>left = 0\<close>, and \<open>pre_regexp\<close> does not hold of 0: a
  slash that comes before any character above the space, such as the first character of
  the input, is written and the loop goes on, without a call of \<open>regexp\<close>. \<open>condition\<close>
  and \<open>stuff\<close> start with \<open>left = '{'\<close>, of which \<open>pre_regexp\<close> holds: a slash that opens
  the stuff, or that follows the opening parenthesis of the condition, is handed to
  \<open>regexp\<close>. (A lone slash throughout: one not followed by \<open>/\<close> or \<open>*\<close>.)
\<close>

theorem initial_left_and_first_slash:
  "\<not> pre_regexp 0 \<and> pre_regexp (ascii CHR ''{'')
   \<and> process reg sa = (let s = sa\<lparr>line_nr := 1\<rparr>; (c, s) = get False s in process_loop reg c 0 s)
   \<and> condition sc = condition_loop (ascii CHR ''{'') 0 sc
   \<and> stuff sb = stuff_loop (ascii CHR ''{'') 0 (skip_spaces sb)
   \<and> (sound sa \<and> unread sa = ws @ ''/'' @ ra \<and>
        (\<forall>b \<in> set ws. 0 < ascii b \<and> ascii b \<le> ascii CHR '' '') \<and>
        take 1 ra \<noteq> ''/'' \<and> take 1 ra \<noteq> ''*'' \<longrightarrow>
        (\<exists>s1. sound s1 \<and> unread s1 = ra \<and> stdout s1 = stdout sa @ ws @ ''/'' \<and>
           process reg sa
             = (case get False s1 of (c, z) \<Rightarrow> process_loop reg c (ascii CHR ''/'') z)))
   \<and> (sound sb \<and> unread sb = replicate n CHR '' '' @ ''/'' @ rb \<and>
        take 1 rb \<noteq> ''/'' \<and> take 1 rb \<noteq> ''*'' \<longrightarrow>
        (\<exists>s1. sound s1 \<and> unread s1 = rb \<and> stdout s1 = stdout sb @ ''/'' \<and>
           stuff sb
             = (case regexp True s1 of
                  Inl e \<Rightarrow> Inl e
                | Inr s2 \<Rightarrow> stuff_loop (ascii CHR ''/'') 0 s2)))
   \<and> (sound sc \<and> unread sc = ''(/'' @ rc \<and> take 1 rc \<noteq> ''/'' \<and> take 1 rc \<noteq> ''*'' \<longrightarrow>
        (\<exists>s1. sound s1 \<and> unread s1 = rc \<and> stdout s1 = stdout sc @ ''(/'' \<and>
           condition sc
             = (case regexp True s1 of
                  Inl e \<Rightarrow> Inl e
                | Inr s2 \<Rightarrow> condition_loop (ascii CHR ''/'') 1 s2)))"
proof -
  have lit: "ascii CHR ''/'' = 47" by simp
  have "\<not> pre_regexp 0" "pre_regexp (ascii CHR ''{'')" by (simp_all add: pre_regexp_def)
  moreover have "process reg sa
      = (let s = sa\<lparr>line_nr := 1\<rparr>; (c, s) = get False s in process_loop reg c 0 s)"
    by (simp add: process_def)
  moreover have "condition sc = condition_loop (ascii CHR ''{'') 0 sc"
    by (simp add: condition_def)
  moreover have "stuff sb = stuff_loop (ascii CHR ''{'') 0 (skip_spaces sb)"
    by (simp add: stuff_def)
  moreover note process_initial_slash [of sa ws ra reg, folded lit]
    stuff_initial_slash [of sb n rb, folded lit]
    condition_initial_slash [of sc rc, folded lit]
  ultimately show ?thesis by blast
qed


theorem initial_left_and_first_slash_witness:
  "sound \<lparr>stdin = '' /x'', stdout = [], preview = 0, cr = False,
          line_nr = 0\<rparr>
   \<and> unread \<lparr>stdin = '' /x'', stdout = [], preview = 0, cr = False,
          line_nr = 0\<rparr> = '' '' @ ''/'' @ ''x''
   \<and> list_all (\<lambda>b. 0 < ascii b \<and> ascii b \<le> ascii CHR '' '') '' ''
   \<and> take 1 ''x'' \<noteq> ''/'' \<and> take 1 ''x'' \<noteq> ''*''
   \<and> sound \<lparr>stdin = '' /x/ */'', stdout = ''{'', preview = 0, cr = False,
          line_nr = 1\<rparr>
   \<and> unread \<lparr>stdin = '' /x/ */'', stdout = ''{'', preview = 0, cr = False,
          line_nr = 1\<rparr> = replicate 1 CHR '' '' @ ''/'' @ ''x/ */''
   \<and> take 1 ''x/ */'' \<noteq> ''/'' \<and> take 1 ''x/ */'' \<noteq> ''*''
   \<and> sound \<lparr>stdin = ''(/x/.test(y)) z*/'', stdout = ''if '', preview = 0, cr = False,
          line_nr = 1\<rparr>
   \<and> unread \<lparr>stdin = ''(/x/.test(y)) z*/'', stdout = ''if '', preview = 0, cr = False,
          line_nr = 1\<rparr> = ''(/'' @ ''x/.test(y)) z*/''
   \<and> take 1 ''x/.test(y)) z*/'' \<noteq> ''/'' \<and> take 1 ''x/.test(y)) z*/'' \<noteq> ''*''
   \<and> main [] (''/'' @ [CHR 0x27] @ ''/'')
       = Inl (Failure 1 ''unterminated string literal.'' (''/'' @ [CHR 0x27] @ ''/''))
   \<and> main [''debug''] (''/*debug /'' @ [CHR 0x27] @ ''/ */'') = Inr (''{/'' @ [CHR 0x27] @ ''/ }'')
   \<and> main [''debug''] (''/*debug(/'' @ [CHR 0x27] @ ''/.test(x)) y*/'')
       = Inr (''if (/'' @ [CHR 0x27] @ ''/.test(x)) {y}'')
   \<and> \<not> pre_regexp 0 \<and> pre_regexp (ascii CHR ''{'')
   \<and> (\<exists>s1. sound s1 \<and> unread s1 = ''x'' \<and>
          stdout s1 = stdout \<lparr>stdin = '' /x'', stdout = [], preview = 0, cr = False,
          line_nr = 0\<rparr> @ '' '' @ ''/'' \<and>
          process [] \<lparr>stdin = '' /x'', stdout = [], preview = 0, cr = False,
          line_nr = 0\<rparr>
            = (case get False s1 of (c, z) \<Rightarrow> process_loop [] c (ascii CHR ''/'') z))
   \<and> (\<exists>s1. sound s1 \<and> unread s1 = ''x/ */'' \<and>
          stdout s1 = stdout \<lparr>stdin = '' /x/ */'', stdout = ''{'', preview = 0, cr = False,
          line_nr = 1\<rparr> @ ''/'' \<and>
          stuff \<lparr>stdin = '' /x/ */'', stdout = ''{'', preview = 0, cr = False,
          line_nr = 1\<rparr>
            = (case regexp True s1 of
                 Inl e \<Rightarrow> Inl e
               | Inr s2 \<Rightarrow> stuff_loop (ascii CHR ''/'') 0 s2))
   \<and> (\<exists>s1. sound s1 \<and> unread s1 = ''x/.test(y)) z*/'' \<and>
          stdout s1 = stdout \<lparr>stdin = ''(/x/.test(y)) z*/'', stdout = ''if '', preview = 0, cr = False,
          line_nr = 1\<rparr> @ ''(/'' \<and>
          condition \<lparr>stdin = ''(/x/.test(y)) z*/'', stdout = ''if '', preview = 0, cr = False,
          line_nr = 1\<rparr>
            = (case regexp True s1 of
                 Inl e \<Rightarrow> Inl e
               | Inr s2 \<Rightarrow> condition_loop (ascii CHR ''/'') 1 s2))"
proof -
  let ?sa = "\<lparr>stdin = '' /x'', stdout = [], preview = 0, cr = False,
          line_nr = 0\<rparr>"
  let ?sb = "\<lparr>stdin = '' /x/ */'', stdout = ''{'', preview = 0, cr = False,
          line_nr = 1\<rparr>"
  let ?sc = "\<lparr>stdin = ''(/x/.test(y)) z*/'', stdout = ''if '', preview = 0, cr = False,
          line_nr = 1\<rparr>"
  have h: "sound ?sa" "sound ?sb" "sound ?sc"
    by (simp_all add: sound_def)
  have u: "unread ?sa = '' '' @ ''/'' @ ''x''"
    "unread ?sb = replicate 1 CHR '' '' @ ''/'' @ ''x/ */''"
    "unread ?sc = ''(/'' @ ''x/.test(y)) z*/''"
    by (simp_all add: unread_def pending_def)
  have w: "\<forall>b \<in> set '' ''. 0 < ascii b \<and> ascii b \<le> ascii CHR '' ''" by simp
  have w': "list_all (\<lambda>b. 0 < ascii b \<and> ascii b \<le> ascii CHR '' '') '' ''" by simp
  have t: "take 1 ''x'' \<noteq> ''/''" "take 1 ''x'' \<noteq> ''*''"
    "take 1 ''x/ */'' \<noteq> ''/''" "take 1 ''x/ */'' \<noteq> ''*''"
    "take 1 ''x/.test(y)) z*/'' \<noteq> ''/''" "take 1 ''x/.test(y)) z*/'' \<noteq> ''*''"
    by simp_all
  have e: "main [] (''/'' @ [CHR 0x27] @ ''/'')
       = Inl (Failure 1 ''unterminated string literal.'' (''/'' @ [CHR 0x27] @ ''/''))
   \<and> main [''debug''] (''/*debug /'' @ [CHR 0x27] @ ''/ */'') = Inr (''{/'' @ [CHR 0x27] @ ''/ }'')
   \<and> main [''debug''] (''/*debug(/'' @ [CHR 0x27] @ ''/.test(x)) y*/'')
       = Inr (''if (/'' @ [CHR 0x27] @ ''/.test(x)) {y}'')"
    by code_simp
  from initial_left_and_first_slash [of "[]" ?sa ?sc ?sb "'' ''" "''x''" 1 "''x/ */''"
      "''x/.test(y)) z*/''"] h u w w' t e
  show ?thesis by blast
qed

subsection \<open>Literals as text\<close>

text \<open>
  The scanners of string literals, character sets and regular expression literals end
  each round in the same way, with the character \<open>b\<close> just read: a backslash takes the
  next character with it, in a tagged comment a star before a slash is an error, and so
  is the end of the stream. \<open>escaped\<close> gives the text read by the rest of the round and
  the text left, or nothing when the round fails.
\<close>

definition escaped :: "bool \<Rightarrow> char \<Rightarrow> string \<Rightarrow> (string \<times> string) option" where
  "escaped ic b t =
     (if b = CHR 0x5C then
        (case t of
           [] \<Rightarrow> None
         | e # t' \<Rightarrow> if ic \<and> e = CHR ''*'' \<and> take 1 t' = ''/'' then None else Some ([e], t'))
      else if ic \<and> b = CHR ''*'' \<and> take 1 t = ''/'' then None
      else Some ([], t))"

definition add_text :: "string \<Rightarrow> (string \<times> string) option \<Rightarrow> (string \<times> string) option" where
  "add_text a r = map_option (\<lambda>(lit, rest). (a @ lit, rest)) r"

lemma escaped_whole: "escaped ic b t = Some (a, t') \<Longrightarrow> t = a @ t'"
  by (auto simp: escaped_def split: if_splits list.splits)

text \<open>
  Where a string literal ends, read from the text after its opening quote: the literal
  up to and including the closing quote and the text after it, or nothing when the
  scanner fails.
\<close>

function str_end :: "char \<Rightarrow> bool \<Rightarrow> string \<Rightarrow> (string \<times> string) option" where
  "str_end q ic [] = None"
| "str_end q ic (b # t) =
     (if b = q then Some ([b], t)
      else case escaped ic b t of
             None \<Rightarrow> None
           | Some (a, t') \<Rightarrow> add_text (b # a) (str_end q ic t'))"
  by pat_completeness auto
termination
  by (relation "measure (\<lambda>(q, ic, t). length t)") (auto dest: escaped_whole)

lemma str_end_whole: "str_end q ic t = Some (lit, rest) \<Longrightarrow> t = lit @ rest \<and> lit \<noteq> []"
proof (induction t arbitrary: lit rule: length_induct)
  case (1 t)
  have IH: "length u < length t \<longrightarrow> u = l @ rest \<and> l \<noteq> []"
    if "str_end q ic u = Some (l, rest)" for u l
    using 1(1) that by blast
  from 1(2) show ?case
    by (cases t)
      (auto simp: add_text_def split: if_splits option.splits dest!: IH escaped_whole)
qed

text \<open>
  Where a regular expression literal ends, read from the text after its opening slash.
  A character set runs to the next \<open>]\<close> as a string literal runs to its quote.
\<close>

function re_end :: "bool \<Rightarrow> string \<Rightarrow> (string \<times> string) option" where
  "re_end ic [] = None"
| "re_end ic (b # t) =
     (if b = CHR ''['' then
        (case str_end CHR '']'' ic t of
           None \<Rightarrow> None
         | Some (l, t') \<Rightarrow> add_text (b # l) (re_end ic t'))
      else if b = CHR ''/'' then
        (if ic \<and> (take 1 t = ''/'' \<or> take 1 t = ''*'') then None else Some ([b], t))
      else case escaped ic b t of
             None \<Rightarrow> None
           | Some (a, t') \<Rightarrow> add_text (b # a) (re_end ic t'))"
  by pat_completeness auto
termination
  by (relation "measure (\<lambda>(ic, t). length t)") (auto dest: str_end_whole escaped_whole)

lemma re_end_whole: "re_end ic t = Some (lit, rest) \<Longrightarrow> t = lit @ rest \<and> lit \<noteq> []"
proof (induction t arbitrary: lit rule: length_induct)
  case (1 t)
  have IH: "length u < length t \<longrightarrow> u = l @ rest \<and> l \<noteq> []"
    if "re_end ic u = Some (l, rest)" for u l
    using 1(1) that by blast
  from 1(2) show ?case
    by (cases t)
      (auto simp: add_text_def split: if_splits option.splits
        dest!: IH escaped_whole str_end_whole)
qed

text \<open>The messages of the three scanners.\<close>

definition literal_errors :: "string list" where
  "literal_errors =
     [''unexpected close comment in string.'', ''unterminated string literal.'',
      ''unexpected close comment in regexp.'',
      ''unterminated set in Regular Expression literal.'',
      ''unexpected comment.'', ''unterminated regexp literal.'']"

text \<open>
  A scanner run from \<open>s\<close> agrees with a reading of the text: it returns having echoed the
  literal and left the rest unread, or it fails with one of the messages.
\<close>

definition reads :: "failure + state \<Rightarrow> state \<Rightarrow> (string \<times> string) option \<Rightarrow> bool" where
  "reads r s res =
     (case res of
        Some (lit, rest) \<Rightarrow>
          \<exists>s'. r = Inr s' \<and> sound s' \<and> unread s' = rest \<and> stdout s' = stdout s @ lit
      | None \<Rightarrow> \<exists>n m w. r = Inl (Failure n m w) \<and> m \<in> set literal_errors)"

lemma reads_add:
  "reads r z res \<Longrightarrow> stdout z = stdout s @ a \<Longrightarrow> reads r s (add_text a res)"
  by (auto simp: reads_def add_text_def split: option.splits)

lemma star_slash_text:
  assumes "sound s"
  shows "\<exists>s'. star_slash ic c s = (ic \<and> c = 42 \<and> take 1 (unread s) = ''/'', s') \<and> sound s' \<and>
     unread s' = unread s \<and> stdout s' = stdout s \<and> line_nr s' = line_nr s \<and> cr s' = cr s"
proof (cases "ic \<and> c = 42")
  case True
  obtain p s1 where pk: "peek s = (p, s1)" by force
  note k = peek_unread [OF pk, rule_format, OF assms]
  have "p = 47 \<longleftrightarrow> take 1 (unread s) = ''/''"
    using k by (cases "unread s") (auto simp: ascii_literals)
  with True pk k show ?thesis by (simp add: star_slash_def)
next
  case False
  with assms show ?thesis by (auto simp: star_slash_def)
qed

text \<open>The end of a round, from the character \<open>c\<close> just read.\<close>

definition round_tail ::
  "bool \<Rightarrow> string \<Rightarrow> string \<Rightarrow> (state \<Rightarrow> state) \<Rightarrow> (state \<Rightarrow> failure + state) \<Rightarrow> int \<Rightarrow> state
     \<Rightarrow> failure + state" where
  "round_tail ic M1 M2 f loop c s =
     (let (c, s) = (if c = ascii CHR 0x5C then get True s else (c, s));
          (close, s) = star_slash ic c s
      in if close then error M1 s
         else if c = EOF then error M2 (f s)
         else loop s)"

lemma round_end:
  assumes "sound s" and "M1 \<in> set literal_errors" and "M2 \<in> set literal_errors"
    and "\<And>z. reads (loop z) z (cont (unread z)) \<or> \<not> sound z \<or> length (unread s) < length (unread z)"
  shows "reads (round_tail ic M1 M2 f loop (ascii b) s) s
     (case escaped ic b (unread s) of
        None \<Rightarrow> None
      | Some (a, t') \<Rightarrow> add_text a (cont t'))"
proof (cases "b = CHR 0x5C")
  case True
  then have b: "ascii b = 92" by simp
  obtain c2 s2 where g2: "get True s = (c2, s2)" by force
  note u2 = get_unread [OF g2, rule_format, OF assms(1)]
  show ?thesis
  proof (cases "unread s")
    case Nil
    with u2 have "c2 = EOF" by simp
    then show ?thesis
      using b g2 True Nil assms(2,3)
      by (auto simp: round_tail_def star_slash_def escaped_def reads_def error_def)
  next
    case (Cons e t')
    with u2 have h2: "c2 = ascii e" "sound s2" "unread s2 = t'" "stdout s2 = stdout s @ [e]"
      by simp_all
    from star_slash_text [OF h2(2), of ic c2] obtain s3 where
      ss: "star_slash ic c2 s2 = (ic \<and> c2 = 42 \<and> take 1 t' = ''/'', s3)" "sound s3"
        "unread s3 = t'" "stdout s3 = stdout s2"
      using h2(3) by auto
    have c42: "c2 = 42 \<longleftrightarrow> e = CHR ''*''" using h2(1) by (simp add: ascii_literals)
    show ?thesis
    proof (cases "ic \<and> e = CHR ''*'' \<and> take 1 t' = ''/''")
      case close: True
      then show ?thesis
        using b g2 True Cons ss c42 assms(2)
        by (auto simp: round_tail_def escaped_def reads_def error_def)
    next
      case False
      from assms(4) [of s3] ss Cons have "reads (loop s3) s3 (cont t')" by simp
      from reads_add [OF this, of s "[e]"] ss h2
      have "reads (loop s3) s (add_text [e] (cont t'))" by simp
      then show ?thesis
        using b g2 True Cons ss c42 False h2(1)
        by (auto simp: round_tail_def escaped_def ascii_sign)
    qed
  qed
next
  case False
  then have b: "ascii b \<noteq> 92" by (auto simp: of_char_eq_iff [where ?'a = int, symmetric])
  from star_slash_text [OF assms(1), of ic "ascii b"] obtain s3 where
    ss: "star_slash ic (ascii b) s = (ic \<and> ascii b = 42 \<and> take 1 (unread s) = ''/'', s3)"
      "sound s3" "unread s3 = unread s" "stdout s3 = stdout s"
    by auto
  have c42: "ascii b = 42 \<longleftrightarrow> b = CHR ''*''" by (simp add: ascii_literals)
  show ?thesis
  proof (cases "ic \<and> b = CHR ''*'' \<and> take 1 (unread s) = ''/''")
    case True
    then show ?thesis
      using b False ss c42 assms(2)
      by (auto simp: round_tail_def escaped_def reads_def error_def)
  next
    case nc: False
    from assms(4) [of s3] ss have "reads (loop s3) s3 (cont (unread s))" by simp
    from reads_add [OF this, of s "[]"] ss
    have "reads (loop s3) s (add_text [] (cont (unread s)))" by simp
    then show ?thesis
      using b False ss c42 nc
      by (auto simp: round_tail_def escaped_def ascii_sign)
  qed
qed


lemma round_tail_EOF:
  "M2 \<in> set literal_errors \<Longrightarrow> reads (round_tail ic M1 M2 f loop EOF s) z None"
  by (simp add: round_tail_def star_slash_def reads_def error_def)

lemma add_text_escaped:
  "add_text [b] (case escaped ic b t of None \<Rightarrow> None | Some (a, t') \<Rightarrow> add_text a (cont t'))
     = (case escaped ic b t of None \<Rightarrow> None | Some (a, t') \<Rightarrow> add_text (b # a) (cont t'))"
  by (cases "escaped ic b t")
    (auto simp: add_text_def option.map_comp comp_def split_def)

text \<open>A loop that reads to a closing character \<open>q\<close>: that of \<open>string\<close>, and the inner loop of
  \<open>regexp\<close>.\<close>

lemma quote_loop_reads:
  assumes eq: "\<And>s. loop s =
      (let (c, s) = get True s in
       if c = ascii q then Inr s else round_tail ic M1 M2 f loop c s)"
    and M: "M1 \<in> set literal_errors" "M2 \<in> set literal_errors"
  shows "sound s \<Longrightarrow> reads (loop s) s (str_end q ic (unread s))"
proof (induction "length (unread s)" arbitrary: s rule: less_induct)
  case less
  obtain c s1 where g: "get True s = (c, s1)" by force
  note u = get_unread [OF g, rule_format, OF less.prems]
  show ?case
  proof (cases "unread s")
    case Nil
    with u have "c = EOF" by simp
    with g Nil round_tail_EOF [OF M(2), of ic M1 f loop s1 s] show ?thesis
      by (subst eq) (simp add: ascii_sign)
  next
    case (Cons b t)
    with u have h: "c = ascii b" "sound s1" "unread s1 = t" "stdout s1 = stdout s @ [b]"
      by simp_all
    show ?thesis
    proof (cases "b = q")
      case True
      with g h Cons show ?thesis by (subst eq) (simp add: reads_def)
    next
      case False
      have IH: "reads (loop z) z (str_end q ic (unread z)) \<or> \<not> sound z \<or>
          length (unread s1) < length (unread z)" for z
        using less.hyps [of z] h(3) Cons by force
      from round_end [OF h(2) M, of loop "str_end q ic" ic f b, OF IH]
      have "reads (round_tail ic M1 M2 f loop (ascii b) s1) s1
          (case escaped ic b t of None \<Rightarrow> None | Some (a, t') \<Rightarrow> add_text a (str_end q ic t'))"
        using h(3) by simp
      from reads_add [OF this h(4)]
      have "reads (round_tail ic M1 M2 f loop (ascii b) s1) s (str_end q ic (b # t))"
        using False by (simp add: add_text_escaped)
      with g h Cons False show ?thesis by (subst eq) simp
    qed
  qed
qed

lemma string_loop_reads:
  "sound s \<Longrightarrow> reads (string_loop (ascii q) ic was s) s (str_end q ic (unread s))"
  by (rule quote_loop_reads [where f = "\<lambda>s. s\<lparr>line_nr := was\<rparr>"
        and ?M1.0 = "''unexpected close comment in string.''"
        and ?M2.0 = "''unterminated string literal.''"])
    (simp_all add: string_loop.simps [of "ascii q" ic was] round_tail_def literal_errors_def
      split: prod.splits)

lemma regexp_set_loop_reads:
  "sound s \<Longrightarrow> reads (regexp_set_loop ic s) s (str_end CHR '']'' ic (unread s))"
  by (rule quote_loop_reads [where f = "\<lambda>s. s"
        and ?M1.0 = "''unexpected close comment in regexp.''"
        and ?M2.0 = "''unterminated set in Regular Expression literal.''"])
    (simp_all add: regexp_set_loop.simps [of ic] round_tail_def literal_errors_def
      split: prod.splits)


lemma peek_comment_text:
  assumes "sound s"
  shows "\<exists>s'. peek_comment s = (take 1 (unread s) = ''/'' \<or> take 1 (unread s) = ''*'', s') \<and>
     sound s' \<and> unread s' = unread s \<and> stdout s' = stdout s \<and> line_nr s' = line_nr s \<and>
     cr s' = cr s"
proof -
  obtain p1 s1 where pk1: "peek s = (p1, s1)" by force
  note k1 = peek_unread [OF pk1, rule_format, OF assms]
  obtain p2 s2 where pk2: "peek s1 = (p2, s2)" by force
  from k1 have "sound s1" by simp
  note k2 = peek_unread [OF pk2, rule_format, OF this]
  have "p1 = 47 \<longleftrightarrow> take 1 (unread s) = ''/''" "p2 = 42 \<longleftrightarrow> take 1 (unread s) = ''*''"
    using k1 k2 by (cases "unread s"; auto simp: ascii_literals)+
  with pk1 pk2 k1 k2 show ?thesis by (auto simp: peek_comment_def)
qed

lemma regexp_loop_tail:
  "regexp_loop ic was s =
     (let (c, s) = get True s in
      if c = ascii CHR ''['' then
        (case regexp_set_loop ic s of
           Inl e \<Rightarrow> Inl e
         | Inr s \<Rightarrow> regexp_loop ic was s)
      else if c = ascii CHR ''/'' then
        (if ic then
           (let (comment, s) = peek_comment s in
            if comment then error ''unexpected comment.'' s else Inr s)
         else Inr s)
      else round_tail ic ''unexpected comment.'' ''unterminated regexp literal.''
             (\<lambda>s. s\<lparr>line_nr := was\<rparr>) (regexp_loop ic was) c s)"
  by (subst regexp_loop.simps) (simp add: round_tail_def split: prod.splits)

lemma regexp_loop_reads:
  "sound s \<Longrightarrow> reads (regexp_loop ic was s) s (re_end ic (unread s))"
proof (induction "length (unread s)" arbitrary: s rule: less_induct)
  case less
  let ?M1 = "''unexpected comment.''" and ?M2 = "''unterminated regexp literal.''"
  let ?f = "\<lambda>s. s\<lparr>line_nr := was\<rparr>"
  have M: "?M1 \<in> set literal_errors" "?M2 \<in> set literal_errors"
    by (simp_all add: literal_errors_def)
  obtain c s1 where g: "get True s = (c, s1)" by force
  note u = get_unread [OF g, rule_format, OF less.prems]
  show ?case
  proof (cases "unread s")
    case Nil
    with u have "c = EOF" by simp
    with g Nil round_tail_EOF [OF M(2), of ic ?M1 ?f "regexp_loop ic was" s1 s] show ?thesis
      by (subst regexp_loop_tail) simp
  next
    case (Cons b t)
    with u have h: "c = ascii b" "sound s1" "unread s1 = t" "stdout s1 = stdout s @ [b]"
      by simp_all
    have c91: "c = 91 \<longleftrightarrow> b = CHR ''[''" and c47: "c = 47 \<longleftrightarrow> b = CHR ''/''"
      using h(1) of_char_eq_iff [of b "CHR ''[''", where ?'a = int]
        of_char_eq_iff [of b "CHR ''/''", where ?'a = int]
      by simp_all
    have IH: "reads (regexp_loop ic was z) z (re_end ic (unread z)) \<or> \<not> sound z \<or>
        length (unread s1) < length (unread z)" for z
      using less.hyps [of z] h(3) Cons by force
    consider (set) "b = CHR ''[''" | (slash) "b = CHR ''/''"
      | (other) "b \<noteq> CHR ''[''" "b \<noteq> CHR ''/''"
      by blast
    then show ?thesis
    proof cases
      case set
      note r = regexp_set_loop_reads [OF h(2), of ic, unfolded h(3)]
      show ?thesis
      proof (cases "str_end CHR '']'' ic t")
        case None
        with r obtain n m w where "regexp_set_loop ic s1 = Inl (Failure n m w)"
          "m \<in> set literal_errors"
          by (auto simp: reads_def)
        with g h c91 set Cons None show ?thesis
          by (subst regexp_loop_tail) (simp add: reads_def)
      next
        case (Some lr)
        obtain l t' where lr: "lr = (l, t')" by (cases lr)
        with r Some obtain s2 where s2: "regexp_set_loop ic s1 = Inr s2" "sound s2"
          "unread s2 = t'" "stdout s2 = stdout s1 @ l"
          by (auto simp: reads_def)
        from str_end_whole Some lr have "length t' < length t" by fastforce
        with IH [of s2] s2 h(3) have "reads (regexp_loop ic was s2) s2 (re_end ic t')" by simp
        from reads_add [OF this, of s "b # l"] s2(4) h(4)
        have "reads (regexp_loop ic was s2) s (add_text (b # l) (re_end ic t'))" by simp
        with g h c91 set Cons Some lr s2(1) show ?thesis
          by (subst regexp_loop_tail) simp
      qed
    next
      case slash
      from peek_comment_text [OF h(2)] h(3) obtain s2 where
        pc: "peek_comment s1 = (take 1 t = ''/'' \<or> take 1 t = ''*'', s2)" "sound s2"
          "unread s2 = t" "stdout s2 = stdout s1"
        by auto
      with g h c47 c91 slash Cons show ?thesis
        by (subst regexp_loop_tail) (auto simp: reads_def error_def literal_errors_def)
    next
      case other
      from round_end [OF h(2) M, of "regexp_loop ic was" "re_end ic" ic ?f b, OF IH]
      have "reads (round_tail ic ?M1 ?M2 ?f (regexp_loop ic was) (ascii b) s1) s1
          (case escaped ic b t of None \<Rightarrow> None | Some (a, t') \<Rightarrow> add_text a (re_end ic t'))"
        using h(3) by simp
      from reads_add [OF this h(4)]
      have "reads (round_tail ic ?M1 ?M2 ?f (regexp_loop ic was) (ascii b) s1) s
          (re_end ic (b # t))"
        using other by (simp add: add_text_escaped)
      with g h c91 c47 other Cons show ?thesis
        by (subst regexp_loop_tail) simp
    qed
  qed
qed

lemma string_reads:
  "sound s \<Longrightarrow> reads (string (ascii q) ic s) s (str_end q ic (unread s))"
  by (simp add: string_def string_loop_reads)

lemma regexp_reads: "sound s \<Longrightarrow> reads (regexp ic s) s (re_end ic (unread s))"
  by (simp add: regexp_def regexp_loop_reads)

subsection \<open>Brackets in the stuff\<close>

text \<open>
  A character that \<open>stuff\<close> takes one at a time: no quote, no slash, no star, no zero
  byte. Brackets are among them.
\<close>

definition simple :: "char \<Rightarrow> bool" where
  "simple b \<longleftrightarrow> ascii b \<noteq> 0 \<and> \<not> quotes (ascii b) \<and> b \<noteq> CHR ''/'' \<and> b \<noteq> CHR ''*''"

text \<open>The bracket depth after one character, and after a text.\<close>

definition nest :: "int \<Rightarrow> char \<Rightarrow> int" where
  "nest d b = (if opens (ascii b) then d + 1 else if closes (ascii b) then d - 1 else d)"

fun depth :: "int \<Rightarrow> string \<Rightarrow> int" where
  "depth d [] = d"
| "depth d (b # t) = depth (nest d b) t"

text \<open>The depth is negative after some character of the text.\<close>

fun dips :: "int \<Rightarrow> string \<Rightarrow> bool" where
  "dips d [] = False"
| "dips d (b # t) = (nest d b < 0 \<or> dips (nest d b) t)"

lemma get_line:
  "get echo s = (c, s') \<Longrightarrow> c \<noteq> 10 \<Longrightarrow> c \<noteq> 13 \<Longrightarrow> line_nr s' = line_nr s"
  by (auto simp: get_def fgetc_def emit_def Let_def split: if_splits list.splits prod.splits)

lemma stuff_loop_simple_step:
  assumes "sound s" and "unread s = b # t" and "simple b"
  shows "\<exists>z. sound z \<and> unread z = t \<and> stdout z = stdout s @ [b] \<and>
     stuff_loop left paren s =
       (if closes (ascii b) \<and> paren - 1 < 0 then error ''Unbalanced stuff'' z
        else stuff_loop (new_left (ascii b) left) (nest paren b) z)"
proof -
  obtain p1 s1 where pk: "peek s = (p1, s1)" by force
  note k = peek_unread [OF pk, rule_format, OF assms(1)]
  obtain c z where g: "get True s1 = (c, z)" by force
  from get_unread [OF g] k assms(2)
  have h: "p1 = ascii b" "c = ascii b" "sound z" "unread z = t" "stdout z = stdout s @ [b]"
    by simp_all
  from assms(3) have b: "ascii b \<noteq> 42" "ascii b \<noteq> 47" "ascii b \<noteq> EOF" "\<not> quotes (ascii b)"
    by (simp_all add: simple_def ascii_literals ascii_sign)
  have oc: "opens (ascii b) \<Longrightarrow> \<not> closes (ascii b)"
    by (auto simp: opens_def closes_def)
  have "stuff_loop left paren s =
       (if closes (ascii b) \<and> paren - 1 < 0 then error ''Unbalanced stuff'' z
        else stuff_loop (new_left (ascii b) left) (nest paren b) z)"
    using pk g h b oc
    by (subst stuff_loop.simps) (auto simp: nest_def)
  with h show ?thesis by blast
qed

lemma spaces_prefix:
  "replicate (length (takeWhile (\<lambda>b. b = CHR '' '') body)) CHR '' '' @
     dropWhile (\<lambda>b. b = CHR '' '') body = body"
  by (induction body) auto

text \<open>
  The stuff as \<open>stuff\<close> reads it: single characters, among them the brackets, and string and
  regular expression literals, whose characters \<open>stuff\<close> does not look at.
\<close>

datatype token = Ch char | Lit string

fun text_of :: "token \<Rightarrow> string" where
  "text_of (Ch b) = [b]"
| "text_of (Lit l) = l"

definition flat :: "token list \<Rightarrow> string" where
  "flat toks = concat (map text_of toks)"

text \<open>The characters that \<open>stuff\<close> reads one at a time.\<close>

fun chars :: "token list \<Rightarrow> string" where
  "chars [] = []"
| "chars (Ch b # toks) = b # chars toks"
| "chars (Lit l # toks) = chars toks"

text \<open>
  How the reading of a stuff ends: with the terminator \<open>*/\<close> and the text after it, or
  with something that \<open>stuff\<close> cannot read (the end of the stream, a comment, a literal
  that fails).
\<close>

datatype tail = Ends string | Breaks

definition add_token :: "token \<Rightarrow> token list \<times> tail \<Rightarrow> token list \<times> tail" where
  "add_token k r = (k # fst r, snd r)"

text \<open>
  The tokens of a text from its start to the terminator. \<open>left\<close> is the last character
  above the space before the text; a slash starts a regular expression literal when
  \<open>pre_regexp\<close> holds of it. A star that is not followed by a slash is a character like
  any other, but does not become \<open>left\<close>.
\<close>

function lex :: "int \<Rightarrow> string \<Rightarrow> token list \<times> tail" where
  "lex left [] = ([], Breaks)"
| "lex left (b # t) =
     (if b = CHR ''*'' then
        (if take 1 t = ''/'' then ([], Ends (drop 1 t)) else add_token (Ch b) (lex left t))
      else if quotes (ascii b) then
        (case str_end b True t of
           None \<Rightarrow> ([], Breaks)
         | Some (l, t') \<Rightarrow> add_token (Lit (b # l)) (lex (new_left (ascii b) left) t'))
      else if b = CHR ''/'' then
        (if take 1 t = ''/'' \<or> take 1 t = ''*'' then ([], Breaks)
         else if pre_regexp left then
           (case re_end True t of
              None \<Rightarrow> ([], Breaks)
            | Some (l, t') \<Rightarrow> add_token (Lit (b # l)) (lex (new_left (ascii b) left) t'))
         else add_token (Ch b) (lex (new_left (ascii b) left) t))
      else add_token (Ch b) (lex (new_left (ascii b) left) t))"
  by pat_completeness auto
termination
  by (relation "measure (\<lambda>(left, t). length t)") (auto dest: str_end_whole re_end_whole)

declare lex.simps [simp del]

text \<open>
  What has been read when the depth first becomes negative: the tokens up to and
  including the closing bracket that makes it so.
\<close>

fun dip_text :: "int \<Rightarrow> token list \<Rightarrow> string" where
  "dip_text d [] = []"
| "dip_text d (Ch b # toks) = (if nest d b < 0 then [b] else b # dip_text (nest d b) toks)"
| "dip_text d (Lit l # toks) = l @ dip_text d toks"

text \<open>
  The result \<open>r\<close> of scanning a stuff from the state \<open>s\<close> at depth \<open>paren\<close> is the one that the
  tokens call for. If the depth becomes negative at some bracket, \<open>r\<close> is the failure
  \<open>Unbalanced stuff\<close>, nothing being written after that bracket. Otherwise, at the
  terminator, \<open>r\<close> is the same failure when the depth is not 0, and else the state in which
  the stuff has been written and the text after the terminator is unread; and where the
  stuff cannot be read to the terminator, \<open>r\<close> is a failure with another message.
\<close>

definition judged :: "failure + state \<Rightarrow> state \<Rightarrow> int \<Rightarrow> token list \<times> tail \<Rightarrow> bool" where
  "judged r s paren lexed =
     (case lexed of (toks, e) \<Rightarrow>
        if dips paren (chars toks)
        then \<exists>n. r = Inl (Failure n ''Unbalanced stuff'' (stdout s @ dip_text paren toks))
        else (case e of
                Ends rest \<Rightarrow>
                  if depth paren (chars toks) \<noteq> 0
                  then \<exists>n. r = Inl (Failure n ''Unbalanced stuff'' (stdout s @ flat toks))
                  else \<exists>s'. r = Inr s' \<and> sound s' \<and> unread s' = rest \<and>
                         stdout s' = stdout s @ flat toks
              | Breaks \<Rightarrow> \<exists>n m w. r = Inl (Failure n m w) \<and> m \<noteq> ''Unbalanced stuff''))"

lemma judged_Ch:
  "judged r z (nest paren b) lexed \<Longrightarrow> 0 \<le> nest paren b \<Longrightarrow> stdout z = stdout s @ [b] \<Longrightarrow>
     judged r s paren (add_token (Ch b) lexed)"
  by (cases lexed) (auto simp: judged_def add_token_def flat_def split: tail.splits if_splits)

lemma judged_Lit:
  "judged r z paren lexed \<Longrightarrow> stdout z = stdout s @ l \<Longrightarrow>
     judged r s paren (add_token (Lit l) lexed)"
  by (cases lexed) (auto simp: judged_def add_token_def flat_def split: tail.splits if_splits)

lemma judged_Breaks:
  "r = Inl (Failure n m w) \<Longrightarrow> m \<noteq> ''Unbalanced stuff'' \<Longrightarrow> judged r s paren ([], Breaks)"
  by (simp add: judged_def)


lemma judged_dip:
  "nest paren b < 0 \<Longrightarrow> r = Inl (Failure n ''Unbalanced stuff'' (stdout s @ [b])) \<Longrightarrow>
     judged r s paren (add_token (Ch b) lexed)"
  by (cases lexed) (simp add: judged_def add_token_def)

lemma literal_errors_stuff: "m \<in> set literal_errors \<Longrightarrow> m \<noteq> ''Unbalanced stuff''"
  by (auto simp: literal_errors_def)

lemma reads_judged:
  assumes "reads r z res" and "stdout z = stdout s @ [b]"
    and "\<And>s3 l t'. res = Some (l, t') \<Longrightarrow> sound s3 \<Longrightarrow> unread s3 = t' \<Longrightarrow>
           stdout s3 = stdout z @ l \<Longrightarrow> judged (loop s3) s3 paren (lexed t')"
  shows "judged (case r of Inl e \<Rightarrow> Inl e | Inr s3 \<Rightarrow> loop s3) s paren
     (case res of None \<Rightarrow> ([], Breaks) | Some (l, t') \<Rightarrow> add_token (Lit (b # l)) (lexed t'))"
proof (cases res)
  case None
  with assms(1) obtain n m w where "r = Inl (Failure n m w)" "m \<in> set literal_errors"
    by (auto simp: reads_def)
  with None show ?thesis by (simp add: judged_Breaks literal_errors_stuff)
next
  case (Some lr)
  obtain l t' where lr: "lr = (l, t')" by (cases lr)
  with assms(1) Some obtain s3 where s3: "r = Inr s3" "sound s3" "unread s3 = t'"
    "stdout s3 = stdout z @ l"
    by (auto simp: reads_def)
  from assms(3) [OF _ s3(2,3,4)] Some lr have "judged (loop s3) s3 paren (lexed t')" by simp
  from judged_Lit [OF this, of s "b # l"] s3(4) assms(2)
  have "judged (loop s3) s paren (add_token (Lit (b # l)) (lexed t'))" by simp
  with Some lr s3(1) show ?thesis by simp
qed

lemma stuff_loop_judged:
  "sound s \<Longrightarrow> 0 \<le> paren \<Longrightarrow> judged (stuff_loop left paren s) s paren (lex left (unread s))"
proof (induction "length (unread s)" arbitrary: s left paren rule: less_induct)
  case less
  obtain p s1 where pk: "peek s = (p, s1)" by force
  note k = peek_unread [OF pk, rule_format, OF less.prems(1)]
  show ?case
  proof (cases "unread s")
    case Nil
    obtain c s2 where g: "get True s1 = (c, s2)" by force
    from get_unread [OF g] k Nil have "c = EOF" "p = EOF" by simp_all
    with pk g Nil show ?thesis
      by (subst stuff_loop.simps) (simp add: lex.simps judged_def error_def)
  next
    case (Cons b t)
    with k have p: "p = ascii b" "sound s1" "unread s1 = b # t" "stdout s1 = stdout s"
      by simp_all
    have IH: "judged (stuff_loop l d z) z d (lex l (unread z))"
      if "sound z" "0 \<le> d" "length (unread z) \<le> length t" for l d z
      using less.hyps [of z] that Cons by simp
    show ?thesis
    proof (cases "b = CHR ''*''")
      case True
      then have p42: "p = 42" using p(1) by simp
      obtain c2 s2 where g2: "get False s1 = (c2, s2)" by force
      from get_unread [OF g2] p have h2: "sound s2" "unread s2 = t" "stdout s2 = stdout s"
        by simp_all
      obtain p3 s3 where pk3: "peek s2 = (p3, s3)" by force
      note k3 = peek_unread [OF pk3, rule_format, OF h2(1)]
      with h2 have h3: "sound s3" "unread s3 = t" "stdout s3 = stdout s" by simp_all
      have p47: "p3 = 47 \<longleftrightarrow> take 1 t = ''/''"
        using k3 h2(2) by (cases t) (auto simp: ascii_literals)
      show ?thesis
      proof (cases "take 1 t = ''/''")
        case slash: True
        obtain c4 s4 where g4: "get False s3 = (c4, s4)" by force
        from slash obtain t' where t': "t = CHR ''/'' # t'" by (cases t) auto
        from get_unread [OF g4] h3 t'
        have h4: "sound s4" "unread s4 = drop 1 t" "stdout s4 = stdout s" by simp_all
        have "stuff_loop left paren s = (if paren > 0 then error ''Unbalanced stuff'' s4 else Inr s4)"
          using pk p42 g2 pk3 p47 slash g4 by (subst stuff_loop.simps) simp
        moreover have "lex left (unread s) = ([], Ends (drop 1 t))"
          using Cons True slash by (simp add: lex.simps)
        ultimately show ?thesis
          using h4 less.prems(2) by (auto simp: judged_def flat_def error_def)
      next
        case False
        let ?z = "emit 42 s3"
        have "stuff_loop left paren s = stuff_loop left paren ?z"
          using pk p42 g2 pk3 p47 False by (subst stuff_loop.simps) simp
        moreover have "lex left (unread s) = add_token (Ch b) (lex left t)"
          using Cons True False by (simp add: lex.simps)
        moreover have z: "sound ?z" "unread ?z = t" "stdout ?z = stdout s @ [b]"
          using h3 True by (simp_all add: stdout_emit)
        moreover have n: "nest paren b = paren"
          using True by (simp add: nest_def opens_def closes_def)
        moreover from IH [of ?z paren left] z less.prems(2)
        have "judged (stuff_loop left paren ?z) ?z paren (lex left t)" by simp
        ultimately show ?thesis
          using judged_Ch [of "stuff_loop left paren ?z" ?z paren b "lex left t" s]
            less.prems(2)
          by simp
      qed
    next
      case False
      then have p42: "p \<noteq> 42" using p(1) by (simp add: ascii_literals)
      obtain c s2 where g: "get True s1 = (c, s2)" by force
      from get_unread [OF g] p
      have h: "c = ascii b" "0 < c" "sound s2" "unread s2 = t" "stdout s2 = stdout s @ [b]"
        by simp_all
      consider (quote) "quotes (ascii b)" | (slash) "\<not> quotes (ascii b)" "b = CHR ''/''"
        | (plain) "\<not> quotes (ascii b)" "b \<noteq> CHR ''/''"
        by blast
      then show ?thesis
      proof cases
        case quote
        let ?l = "new_left (ascii b) left"
        have "stuff_loop left paren s =
            (case string (ascii b) True s2 of Inl e \<Rightarrow> Inl e | Inr s3 \<Rightarrow> stuff_loop ?l paren s3)"
          using pk p42 g h quote by (subst stuff_loop.simps) (simp add: ascii_sign)
        moreover have "lex left (unread s) =
            (case str_end b True t of None \<Rightarrow> ([], Breaks)
             | Some (l, t') \<Rightarrow> add_token (Lit (b # l)) (lex ?l t'))"
          using Cons False quote by (simp add: lex.simps)
        moreover have "judged (stuff_loop ?l paren s3) s3 paren (lex ?l t')"
          if "str_end b True t = Some (l, t')" "sound s3" "unread s3 = t'" for s3 l t'
          using IH [of s3 paren ?l] that str_end_whole [OF that(1)] less.prems(2) by simp
        ultimately show ?thesis
          using reads_judged [OF string_reads [OF h(3), of b True, unfolded h(4)] h(5),
              of "stuff_loop ?l paren" paren "lex ?l"]
          by simp
      next
        case slash
        let ?l = "new_left (ascii b) left"
        have c47: "c = 47" using h(1) slash by simp
        from peek_comment_text [OF h(3)] h(4,5) obtain s3 where
          pc: "peek_comment s2 = (take 1 t = ''/'' \<or> take 1 t = ''*'', s3)" "sound s3"
            "unread s3 = t" "stdout s3 = stdout s @ [b]"
          by auto
        have run: "stuff_loop left paren s =
            (if take 1 t = ''/'' \<or> take 1 t = ''*'' then error ''unexpected comment.'' s3
             else case (if pre_regexp left then regexp True s3 else Inr s3) of
                    Inl e \<Rightarrow> Inl e
                  | Inr s4 \<Rightarrow> stuff_loop ?l paren s4)"
          using pk p42 g h(1) c47 pc(1) slash
          by (subst stuff_loop.simps) (simp add: quotes_def opens_def closes_def split: sum.splits)
        have lx: "lex left (unread s) =
            (if take 1 t = ''/'' \<or> take 1 t = ''*'' then ([], Breaks)
             else if pre_regexp left then
               (case re_end True t of None \<Rightarrow> ([], Breaks)
                | Some (l, t') \<Rightarrow> add_token (Lit (b # l)) (lex ?l t'))
             else add_token (Ch b) (lex ?l t))"
          using Cons slash by (simp add: lex.simps split: option.splits)
        show ?thesis
        proof (cases "take 1 t = ''/'' \<or> take 1 t = ''*''")
          case True
          with run lx show ?thesis by (simp add: error_def judged_Breaks)
        next
          case nc: False
          show ?thesis
          proof (cases "pre_regexp left")
            case True
            have "judged (stuff_loop ?l paren s4) s4 paren (lex ?l t')"
              if "re_end True t = Some (l, t')" "sound s4" "unread s4 = t'" for s4 l t'
              using IH [of s4 paren ?l] that re_end_whole [OF that(1)] less.prems(2) by simp
            with run lx nc True show ?thesis
              using reads_judged [OF regexp_reads [OF pc(2), of True, unfolded pc(3)] pc(4),
                  of "stuff_loop ?l paren" paren "lex ?l"]
              by simp
          next
            case False
            have n: "nest paren b = paren"
              using slash by (simp add: nest_def opens_def closes_def)
            from IH [of s3 paren ?l] pc less.prems(2)
            have "judged (stuff_loop ?l paren s3) s3 paren (lex ?l t)" by simp
            from judged_Ch [of _ s3 paren b _ s, unfolded n, OF this less.prems(2) pc(4)]
            show ?thesis using run lx nc False by simp
          qed
        qed
      next
        case plain
        let ?l = "new_left (ascii b) left"
        have sb: "simple b"
          using plain False h(1,2) by (simp add: simple_def)
        from stuff_loop_simple_step [OF less.prems(1) Cons sb, of left paren]
        obtain z where z: "sound z" "unread z = t" "stdout z = stdout s @ [b]"
          "stuff_loop left paren s =
             (if closes (ascii b) \<and> paren - 1 < 0 then error ''Unbalanced stuff'' z
              else stuff_loop ?l (nest paren b) z)"
          by blast
        have lx: "lex left (unread s) = add_token (Ch b) (lex ?l t)"
          using Cons False plain by (simp add: lex.simps)
        show ?thesis
        proof (cases "closes (ascii b) \<and> paren - 1 < 0")
          case True
          have eq: "stuff_loop left paren s = error ''Unbalanced stuff'' z"
            unfolding z(4) using True by (rule if_P)
          from True have "nest paren b < 0" by (auto simp: nest_def opens_def closes_def)
          from judged_dip [OF this, of _ "line_nr z" s] show ?thesis
            unfolding eq lx using z(3) by (simp add: error_def)
        next
          case nd: False
          have eq: "stuff_loop left paren s = stuff_loop ?l (nest paren b) z"
            unfolding z(4) using nd by (rule if_not_P)
          from nd less.prems(2) have n: "0 \<le> nest paren b" by (auto simp: nest_def)
          from IH [of z "nest paren b" ?l] z n
          have "judged (stuff_loop ?l (nest paren b) z) z (nest paren b) (lex ?l t)" by simp
          from judged_Ch [OF this n z(3)] show ?thesis unfolding eq lx .
        qed
      qed
    qed
  qed
qed


lemma skip_spaces_dropWhile:
  assumes "sound s"
  shows "sound (skip_spaces s) \<and>
     unread (skip_spaces s) = dropWhile (\<lambda>b. b = CHR '' '') (unread s) \<and>
     stdout (skip_spaces s) = stdout s"
proof -
  let ?n = "length (takeWhile (\<lambda>b. b = CHR '' '') (unread s))"
  let ?t = "dropWhile (\<lambda>b. b = CHR '' '') (unread s)"
  have u: "unread s = replicate ?n CHR '' '' @ ?t"
    by (simp only: spaces_prefix)
  have t: "take 1 ?t \<noteq> '' ''"
  proof (cases ?t)
    case Nil
    show ?thesis unfolding Nil by simp
  next
    case (Cons x xs)
    with hd_dropWhile [of "\<lambda>b. b = CHR '' ''" "unread s"] have "x \<noteq> CHR '' ''" by simp
    then show ?thesis unfolding Cons by simp
  qed
  from skip_spaces_unread [OF assms u t] show ?thesis .
qed

lemma judged_stdout: "stdout z = stdout s \<Longrightarrow> judged r z paren lexed = judged r s paren lexed"
  unfolding judged_def by (simp only:)

lemma stuff_judged:
  assumes "sound s"
  shows "judged (stuff s) s 0 (lex 123 (dropWhile (\<lambda>b. b = CHR '' '') (unread s)))"
proof -
  note k = skip_spaces_dropWhile [OF assms]
  from stuff_loop_judged [of "skip_spaces s" 0 123] k
  have "judged (stuff_loop 123 0 (skip_spaces s)) (skip_spaces s) 0
      (lex 123 (dropWhile (\<lambda>b. b = CHR '' '') (unread s)))"
    by simp
  with k judged_stdout [of "skip_spaces s" s] show ?thesis by (simp add: stuff_def)
qed

text \<open>
  C7. \<open>stuff\<close> skips the blanks before the stuff and scans it from depth 0 with \<open>{\<close> as the
  character to the left; its loop \<open>stuff_loop\<close> can be entered at any depth that is not
  negative. The text is read as tokens by \<open>lex\<close>: brackets inside string and regular
  expression literals are not counted, all others are, whatever else the stuff holds
  (stars, slashes, literals). For every input without zero bytes, the result is the one
  that \<open>judged\<close> describes: the failure \<open>Unbalanced stuff\<close> as soon as a closing bracket
  makes the depth negative, nothing being written after that bracket; the same failure
  at the terminator \<open>*/\<close> when the depth is not 0 there; the return, with the stuff
  written, when it is 0; and a failure with another message only when the stuff cannot
  be read to its terminator and the depth has not been negative before. With the tag
  \<open>debug\<close>, the input \<open>/*debug (a*/\<close> fails with \<open>Unbalanced stuff\<close>.
\<close>

theorem unbalanced_stuff_is_detected:
  assumes "sound s"
  shows "(0 \<le> paren \<longrightarrow> judged (stuff_loop left paren s) s paren (lex left (unread s)))
       \<and> judged (stuff s) s 0 (lex (ascii CHR ''{'') (dropWhile (\<lambda>b. b = CHR '' '') (unread s)))
       \<and> main [''debug''] ''/*debug (a*/'' = Inl (Failure 1 ''Unbalanced stuff'' ''{(a'')"
proof (intro conjI impI)
  assume "0 \<le> paren"
  with assms show "judged (stuff_loop left paren s) s paren (lex left (unread s))"
    by (rule stuff_loop_judged)
next
  from stuff_judged [OF assms]
  show "judged (stuff s) s 0 (lex (ascii CHR ''{'') (dropWhile (\<lambda>b. b = CHR '' '') (unread s)))"
    by simp
next
  show "main [''debug''] ''/*debug (a*/'' = Inl (Failure 1 ''Unbalanced stuff'' ''{(a'')"
    by code_simp
qed


theorem unbalanced_stuff_is_detected_witness:
  "sound \<lparr>stdin = '' (a*b*/'', stdout = ''{'', preview = 0, cr = False, line_nr = 1\<rparr>
   \<and> lex (ascii CHR ''{'') (dropWhile (\<lambda>b. b = CHR '' '') (unread \<lparr>stdin = '' (a*b*/'', stdout = ''{'', preview = 0, cr = False, line_nr = 1\<rparr>)) = ([Ch CHR ''('', Ch CHR ''a'', Ch CHR ''*'', Ch CHR ''b''], Ends [])
   \<and> \<not> dips 0 (chars [Ch CHR ''('', Ch CHR ''a'', Ch CHR ''*'', Ch CHR ''b''])
   \<and> depth 0 (chars [Ch CHR ''('', Ch CHR ''a'', Ch CHR ''*'', Ch CHR ''b'']) = 1
   \<and> (\<exists>n. stuff \<lparr>stdin = '' (a*b*/'', stdout = ''{'', preview = 0, cr = False, line_nr = 1\<rparr> = Inl (Failure n ''Unbalanced stuff'' ''{(a*b''))
   \<and> sound \<lparr>stdin = '' f('' @ [CHR 0x27] @ '')'' @ [CHR 0x27] @ '')[0]*/ x'', stdout = ''{'', preview = 0, cr = False, line_nr = 1\<rparr>
   \<and> lex (ascii CHR ''{'') (dropWhile (\<lambda>b. b = CHR '' '') (unread \<lparr>stdin = '' f('' @ [CHR 0x27] @ '')'' @ [CHR 0x27] @ '')[0]*/ x'', stdout = ''{'', preview = 0, cr = False, line_nr = 1\<rparr>)) = ([Ch CHR ''f'', Ch CHR ''('', Lit ([CHR 0x27] @ '')'' @ [CHR 0x27]), Ch CHR '')'', Ch CHR ''['', Ch CHR ''0'', Ch CHR '']''], Ends '' x'')
   \<and> \<not> dips 0 (chars [Ch CHR ''f'', Ch CHR ''('', Lit ([CHR 0x27] @ '')'' @ [CHR 0x27]), Ch CHR '')'', Ch CHR ''['', Ch CHR ''0'', Ch CHR '']''])
   \<and> depth 0 (chars [Ch CHR ''f'', Ch CHR ''('', Lit ([CHR 0x27] @ '')'' @ [CHR 0x27]), Ch CHR '')'', Ch CHR ''['', Ch CHR ''0'', Ch CHR '']'']) = 0
   \<and> (\<exists>s'. stuff \<lparr>stdin = '' f('' @ [CHR 0x27] @ '')'' @ [CHR 0x27] @ '')[0]*/ x'', stdout = ''{'', preview = 0, cr = False, line_nr = 1\<rparr> = Inr s' \<and> sound s' \<and> unread s' = '' x'' \<and> stdout s' = ''{f('' @ [CHR 0x27] @ '')'' @ [CHR 0x27] @ '')[0]'')
   \<and> sound \<lparr>stdin = ''a)b*/'', stdout = ''{'', preview = 0, cr = False, line_nr = 1\<rparr>
   \<and> lex (ascii CHR ''{'') (dropWhile (\<lambda>b. b = CHR '' '') (unread \<lparr>stdin = ''a)b*/'', stdout = ''{'', preview = 0, cr = False, line_nr = 1\<rparr>)) = ([Ch CHR ''a'', Ch CHR '')'', Ch CHR ''b''], Ends [])
   \<and> dips 0 (chars [Ch CHR ''a'', Ch CHR '')'', Ch CHR ''b''])
   \<and> (\<exists>n. stuff \<lparr>stdin = ''a)b*/'', stdout = ''{'', preview = 0, cr = False, line_nr = 1\<rparr> = Inl (Failure n ''Unbalanced stuff'' ''{a)''))
   \<and> sound \<lparr>stdin = ''(a'', stdout = ''{'', preview = 0, cr = False, line_nr = 1\<rparr>
   \<and> lex (ascii CHR ''{'') (dropWhile (\<lambda>b. b = CHR '' '') (unread \<lparr>stdin = ''(a'', stdout = ''{'', preview = 0, cr = False, line_nr = 1\<rparr>)) = ([Ch CHR ''('', Ch CHR ''a''], Breaks)
   \<and> \<not> dips 0 (chars [Ch CHR ''('', Ch CHR ''a''])
   \<and> (\<exists>n m w. stuff \<lparr>stdin = ''(a'', stdout = ''{'', preview = 0, cr = False, line_nr = 1\<rparr> = Inl (Failure n m w) \<and> m \<noteq> ''Unbalanced stuff'')
   \<and> sound \<lparr>stdin = ''*/ x'', stdout = ''{(a'', preview = 0, cr = False, line_nr = 1\<rparr>
   \<and> lex (ascii CHR ''a'') (unread \<lparr>stdin = ''*/ x'', stdout = ''{(a'', preview = 0, cr = False, line_nr = 1\<rparr>) = ([], Ends '' x'')
   \<and> (\<exists>n. stuff_loop (ascii CHR ''a'') 1 \<lparr>stdin = ''*/ x'', stdout = ''{(a'', preview = 0, cr = False, line_nr = 1\<rparr> = Inl (Failure n ''Unbalanced stuff'' ''{(a''))
   \<and> main [''debug''] ''/*debug (a*/'' = Inl (Failure 1 ''Unbalanced stuff'' ''{(a'')
   \<and> main [''debug''] ''/*debug (a*b*/'' = Inl (Failure 1 ''Unbalanced stuff'' ''{(a*b'')
   \<and> main [''debug''] (''/*debug ('' @ [CHR 0x27] @ ''x'' @ [CHR 0x27] @ ''*/'') = Inl (Failure 1 ''Unbalanced stuff'' (''{('' @ [CHR 0x27] @ ''x'' @ [CHR 0x27]))
   \<and> main [''debug''] (''/*debug f('' @ [CHR 0x27] @ '')'' @ [CHR 0x27] @ '')*/'') = Inr (''{f('' @ [CHR 0x27] @ '')'' @ [CHR 0x27] @ '')}'')"
proof -
  let ?sA = "\<lparr>stdin = '' (a*b*/'', stdout = ''{'', preview = 0, cr = False, line_nr = 1\<rparr>"
  let ?sB = "\<lparr>stdin = '' f('' @ [CHR 0x27] @ '')'' @ [CHR 0x27] @ '')[0]*/ x'', stdout = ''{'', preview = 0, cr = False, line_nr = 1\<rparr>"
  let ?sC = "\<lparr>stdin = ''a)b*/'', stdout = ''{'', preview = 0, cr = False, line_nr = 1\<rparr>"
  let ?sD = "\<lparr>stdin = ''(a'', stdout = ''{'', preview = 0, cr = False, line_nr = 1\<rparr>"
  let ?sE = "\<lparr>stdin = ''*/ x'', stdout = ''{(a'', preview = 0, cr = False, line_nr = 1\<rparr>"
  have hA: "sound ?sA" by (simp add: sound_def)
  have lA: "lex (ascii CHR ''{'') (dropWhile (\<lambda>b. b = CHR '' '') (unread ?sA)) = ([Ch CHR ''('', Ch CHR ''a'', Ch CHR ''*'', Ch CHR ''b''], Ends [])" by code_simp
  have dA: "\<not> dips 0 (chars [Ch CHR ''('', Ch CHR ''a'', Ch CHR ''*'', Ch CHR ''b''])" by (simp add: nest_def opens_def closes_def)
  have eA: "depth 0 (chars [Ch CHR ''('', Ch CHR ''a'', Ch CHR ''*'', Ch CHR ''b'']) = 1" by (simp add: nest_def opens_def closes_def)
  have hB: "sound ?sB" by (simp add: sound_def)
  have lB: "lex (ascii CHR ''{'') (dropWhile (\<lambda>b. b = CHR '' '') (unread ?sB)) = ([Ch CHR ''f'', Ch CHR ''('', Lit ([CHR 0x27] @ '')'' @ [CHR 0x27]), Ch CHR '')'', Ch CHR ''['', Ch CHR ''0'', Ch CHR '']''], Ends '' x'')" by code_simp
  have dB: "\<not> dips 0 (chars [Ch CHR ''f'', Ch CHR ''('', Lit ([CHR 0x27] @ '')'' @ [CHR 0x27]), Ch CHR '')'', Ch CHR ''['', Ch CHR ''0'', Ch CHR '']''])" by (simp add: nest_def opens_def closes_def)
  have eB: "depth 0 (chars [Ch CHR ''f'', Ch CHR ''('', Lit ([CHR 0x27] @ '')'' @ [CHR 0x27]), Ch CHR '')'', Ch CHR ''['', Ch CHR ''0'', Ch CHR '']'']) = 0" by (simp add: nest_def opens_def closes_def)
  have hC: "sound ?sC" by (simp add: sound_def)
  have lC: "lex (ascii CHR ''{'') (dropWhile (\<lambda>b. b = CHR '' '') (unread ?sC)) = ([Ch CHR ''a'', Ch CHR '')'', Ch CHR ''b''], Ends [])" by code_simp
  have dC: "dips 0 (chars [Ch CHR ''a'', Ch CHR '')'', Ch CHR ''b''])" by (simp add: nest_def opens_def closes_def)
  have hD: "sound ?sD" by (simp add: sound_def)
  have lD: "lex (ascii CHR ''{'') (dropWhile (\<lambda>b. b = CHR '' '') (unread ?sD)) = ([Ch CHR ''('', Ch CHR ''a''], Breaks)" by code_simp
  have dD: "\<not> dips 0 (chars [Ch CHR ''('', Ch CHR ''a''])" by (simp add: nest_def opens_def closes_def)
  have hE: "sound ?sE" by (simp add: sound_def)
  have lE: "lex (ascii CHR ''a'') (unread ?sE) = ([], Ends '' x'')" by code_simp
  have m1: "main [''debug''] ''/*debug (a*/'' = Inl (Failure 1 ''Unbalanced stuff'' ''{(a'')" by code_simp
  have m2: "main [''debug''] ''/*debug (a*b*/'' = Inl (Failure 1 ''Unbalanced stuff'' ''{(a*b'')" by code_simp
  have m3: "main [''debug''] (''/*debug ('' @ [CHR 0x27] @ ''x'' @ [CHR 0x27] @ ''*/'') = Inl (Failure 1 ''Unbalanced stuff'' (''{('' @ [CHR 0x27] @ ''x'' @ [CHR 0x27]))" by code_simp
  have m4: "main [''debug''] (''/*debug f('' @ [CHR 0x27] @ '')'' @ [CHR 0x27] @ '')*/'') = Inr (''{f('' @ [CHR 0x27] @ '')'' @ [CHR 0x27] @ '')}'')" by code_simp
  note jA = unbalanced_stuff_is_detected [OF hA, THEN conjunct2, THEN conjunct1, unfolded lA]
  note jB = unbalanced_stuff_is_detected [OF hB, THEN conjunct2, THEN conjunct1, unfolded lB]
  note jC = unbalanced_stuff_is_detected [OF hC, THEN conjunct2, THEN conjunct1, unfolded lC]
  note jD = unbalanced_stuff_is_detected [OF hD, THEN conjunct2, THEN conjunct1, unfolded lD]
  note jE = unbalanced_stuff_is_detected [OF hE, of 1 "ascii CHR ''a''", THEN conjunct1, rule_format, OF zero_le_one, unfolded lE]
  from jA dA eA have rA: "\<exists>n. stuff ?sA = Inl (Failure n ''Unbalanced stuff'' ''{(a*b'')" by (simp add: judged_def flat_def)
  from jB dB eB have rB: "\<exists>s'. stuff ?sB = Inr s' \<and> sound s' \<and> unread s' = '' x'' \<and> stdout s' = ''{f('' @ [CHR 0x27] @ '')'' @ [CHR 0x27] @ '')[0]''" by (simp add: judged_def flat_def)
  from jC dC have rC: "\<exists>n. stuff ?sC = Inl (Failure n ''Unbalanced stuff'' ''{a)'')" by (simp add: judged_def flat_def nest_def opens_def closes_def)
  from jD dD have rD: "\<exists>n m w. stuff ?sD = Inl (Failure n m w) \<and> m \<noteq> ''Unbalanced stuff''" by (simp add: judged_def flat_def)
  from jE have rE: "\<exists>n. stuff_loop (ascii CHR ''a'') 1 ?sE = Inl (Failure n ''Unbalanced stuff'' ''{(a'')" by (simp add: judged_def flat_def)
  from hA lA dA eA rA hB lB dB eB rB hC lC dC rC hD lD dD rD hE lE rE m1 m2 m3 m4 show ?thesis by blast
qed

end
